theory Spec2Isabelle
  imports Main "HOL-Library.Word"
begin

section \<open>The line-prefixing sink (manager.go, prefixedWriter)\<close>

text \<open>
  Go's \<open>byte\<close> is an unsigned 8-bit integer. A Go \<open>string\<close> is a byte sequence, so the
  prefix is kept as the bytes that \<open>[]byte(pw.prefix)\<close> yields.
\<close>

type_synonym byte = "8 word"

definition newline :: byte where
  "newline = 10"

datatype error = IOError | CriticalStartError string error

text \<open>
  The destination \<open>*os.File\<close> lies outside the repository. It is modelled by what the
  sink can observe of it: \<open>calls\<close> records every argument passed to \<open>dest.Write\<close>, in
  order, together with whether that call returned a nil error; \<open>pending\<close> is the
  environment's script of outcomes for the calls still to come (\<open>True\<close>: the call
  succeeds). Once the script is used up every further call succeeds.
\<close>

record os_file =
  calls :: "(byte list \<times> bool) list"
  pending :: "bool list"

definition file_Write :: "os_file \<Rightarrow> byte list \<Rightarrow> error option \<times> os_file" where
  "file_Write f bs =
     (case pending f of
        [] \<Rightarrow> (None, f\<lparr>calls := calls f @ [(bs, True)]\<rparr>)
      | ok # rest \<Rightarrow>
          (if ok then None else Some IOError,
           f\<lparr>calls := calls f @ [(bs, ok)], pending := rest\<rparr>))"

text \<open>
  The field \<open>dest\<close> is a pointer to one of the two standard streams of the manager.
  \<open>Write\<close> below takes the state of the file that \<open>dest\<close> points to as an argument
  and returns it updated.
\<close>

datatype stream = Stdout | Stderr

record prefixedWriter =
  prefix :: "byte list"
  dest :: stream
  buffer :: "byte list"

text \<open>A writer as \<open>startProcess\<close> builds it: the buffer field is left at its zero value.\<close>

definition new_prefixedWriter :: "byte list \<Rightarrow> stream \<Rightarrow> prefixedWriter" where
  "new_prefixedWriter pfx d = \<lparr>prefix = pfx, dest = d, buffer = []\<rparr>"

text \<open>
  The inner \<open>for i, b := range pw.buffer\<close> loop: the index of the first newline, or the
  initial value \<open>-1\<close> of \<open>lineEnd\<close> when the loop runs to the end without a \<open>break\<close>.
\<close>

fun scan :: "byte list \<Rightarrow> int \<Rightarrow> int" where
  "scan [] i = - 1"
| "scan (b # bs) i = (if b = newline then i else scan bs (i + 1))"

definition lineEnd :: "byte list \<Rightarrow> int" where
  "lineEnd buf = scan buf 0"

text \<open>
  The outer \<open>for\<close> loop of \<open>Write\<close>. Both exits return \<open>originalLen, nil\<close>: the
  \<open>break\<close> when no newline is left, and the early \<open>return\<close> when the destination write
  fails, which happens before the line is cut off the buffer.
\<close>

function process_lines ::
  "int \<Rightarrow> prefixedWriter \<Rightarrow> os_file \<Rightarrow> (int \<times> error option) \<times> prefixedWriter \<times> os_file" where
  "process_lines originalLen pw out =
     (let e = lineEnd (buffer pw) in
      if e = - 1 then ((originalLen, None), pw, out)
      else
        let line = take (nat (e + 1)) (buffer pw);
            prefixed = prefix pw @ line;
            r = file_Write out prefixed
        in if fst r \<noteq> None then ((originalLen, None), pw, snd r)
           else process_lines originalLen
                  (pw\<lparr>buffer := drop (nat (e + 1)) (buffer pw)\<rparr>) (snd r))"
  by pat_completeness auto
termination
proof (relation "measure (\<lambda>(n, pw, out). length (buffer pw))")
  show "wf (measure (\<lambda>(n, pw, out). length (buffer pw)))"
    by simp
next
  fix originalLen :: int and pw :: prefixedWriter and out :: os_file
    and e :: int and line prefixed :: "byte list" and r :: "error option \<times> os_file"
  assume e: "e = lineEnd (buffer pw)" and ne: "e \<noteq> - 1"
  have ge: "scan bs i = - 1 \<or> i \<le> scan bs i" for bs i
    by (induction bs arbitrary: i) (auto, force)
  have "buffer pw \<noteq> []"
    using e ne by (auto simp: lineEnd_def)
  moreover have "0 \<le> e"
    using ge [of "buffer pw" 0] e ne by (simp add: lineEnd_def)
  ultimately show "((originalLen, pw\<lparr>buffer := drop (nat (e + 1)) (buffer pw)\<rparr>, snd r),
                    (originalLen, pw, out))
                   \<in> measure (\<lambda>(n, pw, out). length (buffer pw))"
    by simp
qed

declare process_lines.simps [simp del]

definition Write ::
  "prefixedWriter \<Rightarrow> os_file \<Rightarrow> byte list \<Rightarrow> (int \<times> error option) \<times> prefixedWriter \<times> os_file" where
  "Write pw out p =
     (let originalLen = int (length p);
          pw' = pw\<lparr>buffer := buffer pw @ p\<rparr>
      in process_lines originalLen pw' out)"

text \<open>Successive \<open>Write\<close> calls on one sink, one per chunk, as the child's pipe delivers them.\<close>

fun Writes :: "prefixedWriter \<Rightarrow> os_file \<Rightarrow> byte list list \<Rightarrow> prefixedWriter \<times> os_file" where
  "Writes pw out [] = (pw, out)"
| "Writes pw out (p # ps) = Writes (fst (snd (Write pw out p))) (snd (snd (Write pw out p))) ps"


subsection \<open>What the sink is meant to emit\<close>

text \<open>
  The reference against which the loop is compared. \<open>complete_lines xs\<close> cuts \<open>xs\<close> after
  every newline and keeps the newline-terminated pieces; \<open>unterminated xs\<close> is what follows
  the last newline of \<open>xs\<close> (all of \<open>xs\<close> when it has none).
\<close>

fun lines_from :: "byte list \<Rightarrow> byte list \<Rightarrow> byte list list" where
  "lines_from cur [] = []"
| "lines_from cur (b # bs) =
     (if b = newline then (cur @ [b]) # lines_from [] bs else lines_from (cur @ [b]) bs)"

definition complete_lines :: "byte list \<Rightarrow> byte list list" where
  "complete_lines xs = lines_from [] xs"

definition unterminated :: "byte list \<Rightarrow> byte list" where
  "unterminated xs = rev (takeWhile (\<lambda>b. b \<noteq> newline) (rev xs))"

text \<open>
  \<open>all_ok f\<close>: every scripted outcome of the destination is a success. \<open>new_calls d d'\<close>:
  the destination writes made between the states \<open>d\<close> and \<open>d'\<close> of the destination.
\<close>

definition all_ok :: "os_file \<Rightarrow> bool" where
  "all_ok f = list_all (\<lambda>ok. ok) (pending f)"

definition new_calls :: "os_file \<Rightarrow> os_file \<Rightarrow> (byte list \<times> bool) list" where
  "new_calls before after = drop (length (calls before)) (calls after)"


section \<open>The process manager (manager.go, ProcessManager)\<close>

text \<open>
  \<open>time.Duration\<close> is a count of nanoseconds in an \<open>int64\<close>. The code only compares a
  duration with zero and passes constants on, so no arithmetic can overflow and the
  durations are integers here.
\<close>

type_synonym Duration = int

definition Millisecond :: Duration where
  "Millisecond = 1000000"

definition Second :: Duration where
  "Second = 1000 * Millisecond"

record Process =
  Name :: string
  Command :: string
  Args :: "string list"
  Critical :: bool
  RestartDelay :: Duration

text \<open>
  An \<open>exec.Cmd\<close> as far as the manager uses it. \<open>cmd_name\<close> and \<open>cmd_arg\<close> are the
  arguments \<open>name\<close> and \<open>arg\<close> that \<open>startProcess\<close> passes to
  \<open>exec.CommandContext\<close>; what the library makes of them in its own fields (the
  argument vector, the path looked up for a bare name) is outside the repository, and
  the manager reads none of it. \<open>cmd_Process\<close> is the field \<open>cmd.Process\<close>: nil until
  \<open>cmd.Start()\<close> has succeeded, then the handle of the child, which is identified by its
  pid.
\<close>

record Cmd =
  cmd_name :: string
  cmd_arg :: "string list"
  cmd_Stdout :: prefixedWriter
  cmd_Stderr :: prefixedWriter
  cmd_Process :: "nat option"

definition bytes_of :: "string \<Rightarrow> byte list" where
  "bytes_of s = map of_char s"

text \<open>The two sinks of a child: \<open>fmt.Sprintf("[%s] ", proc.Name)\<close> as prefix.\<close>

definition CommandContext :: "Process \<Rightarrow> Cmd" where
  "CommandContext proc =
     \<lparr>cmd_name = Command proc, cmd_arg = Args proc,
      cmd_Stdout = new_prefixedWriter (bytes_of (''['' @ Name proc @ ''] '')) Stdout,
      cmd_Stderr = new_prefixedWriter (bytes_of (''['' @ Name proc @ ''] '')) Stderr,
      cmd_Process = None\<rparr>"

text \<open>
  What the goroutine that calls \<open>Start\<close> does to the outside, in order: a log line, the
  launch of a monitor goroutine (\<open>go func()\<close>, with the \<open>proc\<close> and \<open>initial\<close> that the
  closure captures) and a \<open>time.Sleep\<close>.
\<close>

datatype log_line =
    ManagerStarting
  | StartWarning string error
  | AllStarted

datatype effect = Log log_line | Go Process bool | Sleep Duration

text \<open>
  The manager. \<open>ctx_done\<close> tells whether \<open>pm.cancel()\<close> has been called, that is whether
  \<open>pm.ctx.Done()\<close> is closed; \<open>wg\<close> is the counter of the wait group. The map \<open>running\<close>
  holds pointers: \<open>cmds\<close> is the store of the \<open>exec.Cmd\<close> objects they point to and
  \<open>next_cmd\<close> the next free address, so that what \<open>cmd.Start()\<close> writes into an object
  is seen through the map. \<open>effects\<close> collects the effects of the caller of \<open>Start\<close>.
  The mutex \<open>mu\<close> has no field: each goroutine is run here on its own against a scripted
  environment, where locking and unlocking change nothing.
\<close>

record ProcessManager =
  processes :: "Process list"
  ctx_done :: bool
  wg :: int
  running :: "string \<rightharpoonup> nat"
  cmds :: "nat \<rightharpoonup> Cmd"
  next_cmd :: nat
  effects :: "effect list"

definition NewProcessManager :: "Process list \<Rightarrow> ProcessManager" where
  "NewProcessManager ps =
     \<lparr>processes = ps, ctx_done = False, wg = 0, running = Map.empty, cmds = Map.empty,
      next_cmd = 0, effects = []\<rparr>"

subsection \<open>The monitor goroutine of \<open>startProcess\<close>\<close>

text \<open>
  The environment of one pass through the \<open>for\<close> loop: whether \<open>cancel()\<close> has been called
  by another goroutine when the loop head looks at \<open>ctx.Done()\<close>; what \<open>cmd.Start()\<close>
  returns (the pid of the child, or \<open>None\<close> for an error); whether \<open>cmd.Wait()\<close> returns
  an error; whether \<open>cancel()\<close> has been called when the loop looks at \<open>ctx.Done()\<close> after
  \<open>cmd.Wait()\<close>; and whether \<open>ctx.Done()\<close> wins the \<open>select\<close> against \<open>time.After(delay)\<close>.
\<close>

record iter_env =
  cancel_at_top :: bool
  start_pid :: "nat option"
  wait_err :: bool
  cancel_at_exit :: bool
  cancel_in_delay :: bool

text \<open>
  The places of the loop body that log, change the manager or wait. A run of the
  goroutine is the list of the places it passes, each with the manager as it is then.
\<close>

datatype point =
    ShutdownRequested
  | Starting
  | Stored
  | StartFailed
  | DeletedAfterFailure
  | Started nat
  | Exited bool
  | DeletedAfterExit
  | ExitedDuringShutdown
  | LoggedExit bool
  | Restarting Duration
  | DelayElapsed Duration
  | Cancelled
  | Done

datatype control = Continue | Return

text \<open>The delay of both restart paths: a zero \<open>RestartDelay\<close> stands for five seconds.\<close>

definition restart_delay :: "Process \<Rightarrow> Duration" where
  "restart_delay proc =
     (let delay = RestartDelay proc in if delay = 0 then 5 * Second else delay)"

text \<open>
  One pass through the loop body (lines 78 to 157). The command is put into \<open>running\<close>
  before \<open>cmd.Start()\<close> is called. When \<open>cmd.Start()\<close> fails the entry is deleted and
  the goroutine returns if \<open>initial\<close> is set; the wait and the retry that follow are
  reached only with \<open>initial\<close> unset.
\<close>

definition iteration ::
  "Process \<Rightarrow> bool \<Rightarrow> iter_env \<Rightarrow> ProcessManager \<Rightarrow>
   (point \<times> ProcessManager) list \<times> control \<times> ProcessManager" where
  "iteration proc initial e pm =
     (let pm1 = pm\<lparr>ctx_done := ctx_done pm \<or> cancel_at_top e\<rparr> in
      if ctx_done pm1 then ([(ShutdownRequested, pm1)], Return, pm1)
      else
        let r = next_cmd pm1;
            cmd = CommandContext proc;
            pm2 = pm1\<lparr>cmds := (cmds pm1)(r \<mapsto> cmd), next_cmd := r + 1\<rparr>;
            pm3 = pm2\<lparr>running := (running pm2)(Name proc \<mapsto> r)\<rparr>;
            stored = [(Starting, pm1), (Stored, pm3)]
        in case start_pid e of
             None \<Rightarrow>
               let pm4 = pm3\<lparr>running := (running pm3)(Name proc := None)\<rparr>;
                   failed = stored @ [(StartFailed, pm3), (DeletedAfterFailure, pm4)]
               in if initial then (failed, Return, pm4)
                  else
                    let delay = restart_delay proc;
                        pm5 = pm4\<lparr>ctx_done := ctx_done pm4 \<or> cancel_in_delay e\<rparr>
                    in if ctx_done pm5 then (failed @ [(Cancelled, pm5)], Return, pm5)
                       else (failed @ [(DelayElapsed delay, pm5)], Continue, pm5)
           | Some pid \<Rightarrow>
               let pm4 = pm3\<lparr>cmds := (cmds pm3)(r \<mapsto> cmd\<lparr>cmd_Process := Some pid\<rparr>)\<rparr>;
                   pm5 = pm4\<lparr>ctx_done := ctx_done pm4 \<or> cancel_at_exit e\<rparr>;
                   pm6 = pm5\<lparr>running := (running pm5)(Name proc := None)\<rparr>;
                   ran = stored @ [(Started pid, pm4), (Exited (wait_err e), pm5),
                                   (DeletedAfterExit, pm6)]
               in if ctx_done pm6 then (ran @ [(ExitedDuringShutdown, pm6)], Return, pm6)
                  else
                    let delay = restart_delay proc;
                        pm7 = pm6\<lparr>ctx_done := ctx_done pm6 \<or> cancel_in_delay e\<rparr>;
                        logged = ran @ [(LoggedExit (wait_err e), pm6), (Restarting delay, pm6)]
                    in if ctx_done pm7 then (logged @ [(Cancelled, pm7)], Return, pm7)
                       else (logged @ [(DelayElapsed delay, pm7)], Continue, pm7))"

text \<open>
  The goroutine: the loop, then the deferred \<open>pm.wg.Done()\<close>. The script gives the
  environment of each pass. The loop has no bound of its own, so a run that is still in
  the loop when the script ends is reported as \<open>InLoop\<close>, with the places passed so far.
\<close>

datatype status = Returned | InLoop

fun goroutine ::
  "Process \<Rightarrow> bool \<Rightarrow> iter_env list \<Rightarrow> ProcessManager \<Rightarrow>
   (point \<times> ProcessManager) list \<times> status \<times> ProcessManager" where
  "goroutine proc initial [] pm = ([], InLoop, pm)"
| "goroutine proc initial (e # es) pm =
     (case iteration proc initial e pm of
        (steps, Return, pm') \<Rightarrow>
          (steps @ [(Done, pm'\<lparr>wg := wg pm' - 1\<rparr>)], Returned, pm'\<lparr>wg := wg pm' - 1\<rparr>)
      | (steps, Continue, pm') \<Rightarrow>
          (case goroutine proc initial es pm' of
             (steps', st, pm'') \<Rightarrow> (steps @ steps', st, pm'')))"

subsection \<open>\<open>startProcess\<close> and \<open>Start\<close>\<close>

text \<open>
  The caller's side of \<open>startProcess\<close>: \<open>pm.wg.Add(1)\<close>, the launch of the goroutine,
  half a second of sleep when \<open>initial\<close> is set, and \<open>return nil\<close>. Nothing the
  goroutine does reaches the returned value.
\<close>

definition startProcess ::
  "Process \<Rightarrow> bool \<Rightarrow> ProcessManager \<Rightarrow> error option \<times> ProcessManager" where
  "startProcess proc initial pm =
     (let pm1 = pm\<lparr>wg := wg pm + 1\<rparr>;
          pm2 = pm1\<lparr>effects := effects pm1 @ [Go proc initial]\<rparr>;
          pm3 = (if initial then pm2\<lparr>effects := effects pm2 @ [Sleep (500 * Millisecond)]\<rparr>
                 else pm2)
      in (None, pm3))"

text \<open>Lines 60 to 63 of \<open>Start\<close>: one second of sleep after a critical process.\<close>

definition stabilize :: "Process \<Rightarrow> ProcessManager \<Rightarrow> ProcessManager" where
  "stabilize proc pm =
     (if Critical proc then pm\<lparr>effects := effects pm @ [Sleep (1 * Second)]\<rparr> else pm)"

text \<open>The \<open>for _, proc := range pm.processes\<close> loop of \<open>Start\<close>, and \<open>Start\<close>.\<close>

fun Start_loop :: "Process list \<Rightarrow> ProcessManager \<Rightarrow> error option \<times> ProcessManager" where
  "Start_loop [] pm = (None, pm\<lparr>effects := effects pm @ [Log AllStarted]\<rparr>)"
| "Start_loop (proc # rest) pm =
     (case startProcess proc True pm of
        (Some err, pm1) \<Rightarrow>
          if Critical proc then (Some (CriticalStartError (Name proc) err), pm1)
          else Start_loop rest
                 (stabilize proc
                    (pm1\<lparr>effects := effects pm1 @ [Log (StartWarning (Name proc) err)]\<rparr>))
      | (None, pm1) \<Rightarrow> Start_loop rest (stabilize proc pm1))"

definition Start :: "ProcessManager \<Rightarrow> error option \<times> ProcessManager" where
  "Start pm = Start_loop (processes pm) (pm\<lparr>effects := effects pm @ [Log ManagerStarting]\<rparr>)"

subsection \<open>Reading a run of the monitor goroutine\<close>

text \<open>
  \<open>handle_at proc pt s\<close> says what the map holds for \<open>proc\<close> at place \<open>pt\<close> in state
  \<open>s\<close>: from the store until the outcome of \<open>cmd.Start()\<close> is logged, a command whose
  process is still nil; from the start of the child until \<open>cmd.Wait()\<close> has returned, the
  command with the child's handle; at every other place nothing.
\<close>

definition handle_process :: "ProcessManager \<Rightarrow> string \<Rightarrow> nat option option" where
  "handle_process s name =
     (case running s name of
        None \<Rightarrow> None
      | Some r \<Rightarrow> (case cmds s r of None \<Rightarrow> None | Some c \<Rightarrow> Some (cmd_Process c)))"

fun handle_at :: "Process \<Rightarrow> point \<times> ProcessManager \<Rightarrow> bool" where
  "handle_at proc (Stored, s) = (handle_process s (Name proc) = Some None)"
| "handle_at proc (StartFailed, s) = (handle_process s (Name proc) = Some None)"
| "handle_at proc (Started pid, s) = (handle_process s (Name proc) = Some (Some pid))"
| "handle_at proc (Exited err, s) =
     (case handle_process s (Name proc) of Some (Some pid) \<Rightarrow> True | _ \<Rightarrow> False)"
| "handle_at proc (pt, s) = (running s (Name proc) = None)"

text \<open>
  \<open>removed_at_once steps\<close>: in the run \<open>steps\<close> each failed start and each return of
  \<open>cmd.Wait()\<close> is followed directly by the deletion of the entry.
\<close>

fun removed_at_once :: "(point \<times> ProcessManager) list \<Rightarrow> bool" where
  "removed_at_once [] = True"
| "removed_at_once ((StartFailed, s) # steps) =
     (case steps of (DeletedAfterFailure, s') # rest \<Rightarrow> removed_at_once steps | _ \<Rightarrow> False)"
| "removed_at_once ((Exited err, s) # steps) =
     (case steps of (DeletedAfterExit, s') # rest \<Rightarrow> removed_at_once steps | _ \<Rightarrow> False)"
| "removed_at_once ((pt, s) # steps) = removed_at_once steps"



subsection \<open>\<open>Shutdown\<close>\<close>

text \<open>
  What \<open>Shutdown\<close> does to the outside, in order: its log lines, \<open>pm.cancel()\<close>, the
  locking and unlocking of \<open>pm.mu\<close>, \<open>cmd.Process.Signal(syscall.SIGTERM)\<close>, the launch of
  the goroutine that waits for the wait group, and \<open>cmd.Process.Kill()\<close>.
\<close>

datatype shutdown_step =
    LogInitiating
  | CancelCtx
  | LockMu
  | LogSigterm string nat
  | Signal nat
  | LogSignalFailed string
  | UnlockMu
  | GoWait
  | LogAllExited
  | LogTimeout Duration
  | LogForceKill string nat
  | Kill nat
  | LogComplete

text \<open>
  The environment of \<open>Shutdown\<close>: the order in which each \<open>range pm.running\<close> visits
  the keys of the map (Go leaves it open); whether \<open>Signal\<close> returns an error for a
  pid; what the monitor goroutines do to the manager while \<open>Shutdown\<close> waits in the
  \<open>select\<close>; and whether \<open>done\<close> is closed before \<open>time.After(30 * time.Second)\<close> fires.
\<close>

record shutdown_env =
  range_at_signal :: "string list"
  signal_err :: "nat \<Rightarrow> bool"
  during_wait :: "ProcessManager \<Rightarrow> ProcessManager"
  done_first :: bool
  range_at_kill :: "string list"

text \<open>
  The two \<open>range\<close> loops (lines 178 to 185 and 203 to 208). An entry whose
  \<open>cmd.Process\<close> is nil is passed over by the guard \<open>if cmd.Process != nil\<close>.
\<close>

fun signal_loop :: "string list \<Rightarrow> (nat \<Rightarrow> bool) \<Rightarrow> ProcessManager \<Rightarrow> shutdown_step list" where
  "signal_loop [] err pm = []"
| "signal_loop (name # names) err pm =
     (case handle_process pm name of
        Some (Some pid) \<Rightarrow>
          [LogSigterm name pid, Signal pid] @ (if err pid then [LogSignalFailed name] else [])
      | _ \<Rightarrow> [])
     @ signal_loop names err pm"

fun kill_loop :: "string list \<Rightarrow> ProcessManager \<Rightarrow> shutdown_step list" where
  "kill_loop [] pm = []"
| "kill_loop (name # names) pm =
     (case handle_process pm name of
        Some (Some pid) \<Rightarrow> [LogForceKill name pid, Kill pid]
      | _ \<Rightarrow> [])
     @ kill_loop names pm"

definition Shutdown :: "shutdown_env \<Rightarrow> ProcessManager \<Rightarrow> shutdown_step list \<times> ProcessManager" where
  "Shutdown env pm =
     (let pm1 = pm\<lparr>ctx_done := True\<rparr>;
          signals = signal_loop (range_at_signal env) (signal_err env) pm1;
          waiting = [LogInitiating, CancelCtx, LockMu] @ signals @ [UnlockMu, GoWait];
          pm2 = during_wait env pm1
      in if done_first env then (waiting @ [LogAllExited, LogComplete], pm2)
         else (waiting @ [LogTimeout (30 * Second), LockMu] @
               kill_loop (range_at_kill env) pm2 @ [UnlockMu, LogComplete], pm2))"

text \<open>
  \<open>started pm names\<close>: the entries of the map whose process has been started, with
  their pids, in the order \<open>names\<close>.
\<close>

fun started :: "ProcessManager \<Rightarrow> string list \<Rightarrow> (string \<times> nat) list" where
  "started pm [] = []"
| "started pm (name # names) =
     (case handle_process pm name of
        Some (Some pid) \<Rightarrow> (name, pid) # started pm names
      | _ \<Rightarrow> started pm names)"

section \<open>Properties of the line-prefixing sink\<close>

lemma scan_eq:
  "scan bs i = (if newline \<in> set bs then i + int (length (takeWhile (\<lambda>b. b \<noteq> newline) bs)) else - 1)"
  by (induction bs arbitrary: i) auto

lemma lineEnd_none: "lineEnd b = - 1 \<longleftrightarrow> newline \<notin> set b"
  by (simp add: lineEnd_def scan_eq)

lemma lineEnd_split:
  assumes "lineEnd b \<noteq> - 1"
  shows "\<exists>w. newline \<notin> set w \<and> take (nat (lineEnd b + 1)) b = w @ [newline]
           \<and> b = w @ newline # drop (nat (lineEnd b + 1)) b
           \<and> nat (lineEnd b + 1) \<le> length b"
proof -
  let ?w = "takeWhile (\<lambda>b. b \<noteq> newline) b"
  have mem: "newline \<in> set b" using assms by (simp add: lineEnd_none)
  then have k: "nat (lineEnd b + 1) = Suc (length ?w)"
    by (simp add: lineEnd_def scan_eq)
  have dw: "dropWhile (\<lambda>b. b \<noteq> newline) b = newline # tl (dropWhile (\<lambda>b. b \<noteq> newline) b)"
    using mem by (metis (mono_tags, lifting) dropWhile_eq_Nil_conv hd_dropWhile list.collapse)
  have b: "b = ?w @ newline # tl (dropWhile (\<lambda>b. b \<noteq> newline) b)"
    using dw takeWhile_dropWhile_id [of "\<lambda>b. b \<noteq> newline" b] by simp
  have "take (Suc (length ?w)) b = ?w @ [newline]"
    by (subst b) simp
  moreover have "drop (Suc (length ?w)) b = tl (dropWhile (\<lambda>b. b \<noteq> newline) b)"
    by (subst b) simp
  moreover have "newline \<notin> set ?w"
    by (auto dest: set_takeWhileD)
  moreover have "Suc (length ?w) \<le> length b"
    using arg_cong [OF b, of length] by simp
  ultimately show ?thesis using k b by auto
qed

lemma lines_from_line:
  "newline \<notin> set w \<Longrightarrow> lines_from acc (w @ newline # rest) = (acc @ w @ [newline]) # lines_from [] rest"
  by (induction w arbitrary: acc) auto

lemma lines_from_none: "newline \<notin> set w \<Longrightarrow> lines_from acc w = []"
  by (induction w arbitrary: acc) auto

lemma takeWhile_no_newline:
  "newline \<notin> set xs \<Longrightarrow> takeWhile (\<lambda>b. b \<noteq> newline) (xs @ ys) = xs @ takeWhile (\<lambda>b. b \<noteq> newline) ys"
  by (induction xs) auto

lemma unterminated_none: "newline \<notin> set w \<Longrightarrow> unterminated w = w"
proof -
  assume "newline \<notin> set w"
  then have "newline \<notin> set (rev w)" by simp
  then have "takeWhile (\<lambda>b. b \<noteq> newline) (rev w @ []) = rev w @ []"
    by (subst takeWhile_no_newline) simp_all
  then show ?thesis unfolding unterminated_def by (simp del: takeWhile_eq_all_conv)
qed

lemma unterminated_line: "unterminated (w @ newline # rest) = unterminated rest"
proof (cases "newline \<in> set rest")
  case True
  then show ?thesis by (simp add: unterminated_def takeWhile_append1 [of newline])
next
  case False
  then have "takeWhile (\<lambda>b. b \<noteq> newline) (rev rest @ newline # rev w) = rev rest"
    using takeWhile_no_newline [of "rev rest" "newline # rev w"] by simp
  then show ?thesis using unterminated_none [OF False] unfolding unterminated_def by simp
qed

lemma unterminated_no_newline: "newline \<notin> set (unterminated xs)"
  by (auto simp: unterminated_def dest: set_takeWhileD)

lemma file_Write_ok:
  "all_ok f \<Longrightarrow> file_Write f bs = (None, f\<lparr>calls := calls f @ [(bs, True)], pending := tl (pending f)\<rparr>)"
  by (cases "pending f") (auto simp: file_Write_def all_ok_def)

lemma process_lines_ok:
  "all_ok out \<Longrightarrow>
   process_lines n pw out =
     ((n, None), pw\<lparr>buffer := unterminated (buffer pw)\<rparr>,
      out\<lparr>calls := calls out @ map (\<lambda>l. (prefix pw @ l, True)) (complete_lines (buffer pw)),
           pending := drop (length (complete_lines (buffer pw))) (pending out)\<rparr>)"
proof (induction n pw out rule: process_lines.induct)
  case (1 n pw out)
  show ?case
  proof (cases "lineEnd (buffer pw) = - 1")
    case True
    then have "newline \<notin> set (buffer pw)" by (simp add: lineEnd_none)
    then show ?thesis using True
      by (subst process_lines.simps) (simp add: complete_lines_def lines_from_none unterminated_none)
  next
    case False
    let ?k = "nat (lineEnd (buffer pw) + 1)"
    obtain w where w: "newline \<notin> set w" "take ?k (buffer pw) = w @ [newline]"
      "buffer pw = w @ newline # drop ?k (buffer pw)"
      using lineEnd_split [OF False] by blast
    let ?d = "snd (file_Write out (prefix pw @ take ?k (buffer pw)))"
    have fw: "file_Write out (prefix pw @ take ?k (buffer pw)) =
        (None, out\<lparr>calls := calls out @ [(prefix pw @ take ?k (buffer pw), True)], pending := tl (pending out)\<rparr>)"
      using "1.prems" by (rule file_Write_ok)
    have ok': "all_ok ?d"
      using "1.prems" by (cases "pending out") (auto simp: fw all_ok_def)
    have IH: "process_lines n (pw\<lparr>buffer := drop ?k (buffer pw)\<rparr>) ?d = 
       ((n, None), pw\<lparr>buffer := unterminated (drop ?k (buffer pw))\<rparr>,
      ?d\<lparr>calls := calls ?d @ map (\<lambda>l. (prefix pw @ l, True)) (complete_lines (drop ?k (buffer pw))),
           pending := drop (length (complete_lines (drop ?k (buffer pw)))) (pending ?d)\<rparr>)"
      using "1.IH" [OF refl False refl refl refl _ ok'] by (simp add: fw)
    have cl: "complete_lines (buffer pw) = take ?k (buffer pw) # complete_lines (drop ?k (buffer pw))"
      by (subst w(3)) (simp add: complete_lines_def lines_from_line [OF w(1)] w(2))
    have un: "unterminated (buffer pw) = unterminated (drop ?k (buffer pw))"
      by (subst w(3)) (simp add: unterminated_line)
    show ?thesis
      apply (subst process_lines.simps)
      using False IH apply (simp add: Let_def fw cl un drop_Suc)
      done
  qed
qed


lemma lines_from_cut:
  "lines_from acc (u @ newline # z) = lines_from acc (u @ [newline]) @ lines_from [] z"
  by (induction u arbitrary: acc) auto

lemma complete_lines_append:
  "complete_lines (x @ y) = complete_lines x @ complete_lines (unterminated x @ y)"
proof (cases "newline \<in> set x")
  case False
  then show ?thesis
    by (simp add: complete_lines_def lines_from_none unterminated_none)
next
  case True
  then obtain u v where x: "x = u @ newline # v" and v: "newline \<notin> set v"
    by (auto dest: split_list_last)
  have un: "unterminated x = v"
    by (simp add: x unterminated_line unterminated_none [OF v])
  have "complete_lines (x @ y) = lines_from [] (u @ [newline]) @ complete_lines (v @ y)"
    using lines_from_cut [of "[]" u "v @ y"] by (simp add: x complete_lines_def)
  moreover have "complete_lines x = lines_from [] (u @ [newline])"
    using lines_from_cut [of "[]" u v] by (simp add: x complete_lines_def lines_from_none [OF v])
  ultimately show ?thesis by (simp add: un)
qed

lemma unterminated_append:
  "unterminated (x @ y) = unterminated (unterminated x @ y)"
proof (cases "newline \<in> set x")
  case False
  then show ?thesis by (simp add: unterminated_none)
next
  case True
  then obtain u v where x: "x = u @ newline # v" and v: "newline \<notin> set v"
    by (auto dest: split_list_last)
  have "unterminated x = v"
    by (simp add: x unterminated_line unterminated_none [OF v])
  moreover have "unterminated (x @ y) = unterminated (v @ y)"
    using unterminated_line [of u "v @ y"] by (simp add: x)
  ultimately show ?thesis by simp
qed

lemma lines_from_shape:
  "newline \<notin> set acc \<Longrightarrow> l \<in> set (lines_from acc xs) \<Longrightarrow> \<exists>w. l = w @ [newline] \<and> newline \<notin> set w"
proof (induction xs arbitrary: acc)
  case Nil
  then show ?case by simp
next
  case (Cons b bs)
  show ?case
  proof (cases "b = newline")
    case True
    then have "l = acc @ [newline] \<or> l \<in> set (lines_from [] bs)"
      using Cons.prems(2) by simp
    then show ?thesis
      using Cons.prems(1) Cons.IH [of "[]"] by auto
  next
    case False
    then have "l \<in> set (lines_from (acc @ [b]) bs)" "newline \<notin> set (acc @ [b])"
      using Cons.prems by auto
    then show ?thesis using Cons.IH [of "acc @ [b]"] by blast
  qed
qed

lemma lines_from_concat:
  "newline \<notin> set acc \<Longrightarrow> concat (lines_from acc xs) @ unterminated (acc @ xs) = acc @ xs"
proof (induction xs arbitrary: acc)
  case Nil
  then show ?case by (simp add: unterminated_none)
next
  case (Cons b bs)
  show ?case
  proof (cases "b = newline")
    case True
    have "unterminated (acc @ newline # bs) = unterminated bs"
      by (rule unterminated_line)
    then show ?thesis
      using True Cons.IH [of "[]"] by simp
  next
    case False
    then have "newline \<notin> set (acc @ [b])" using Cons.prems by simp
    from Cons.IH [OF this] show ?thesis using False by simp
  qed
qed

lemma complete_lines_concat: "concat (complete_lines xs) @ unterminated xs = xs"
  using lines_from_concat [of "[]" xs] by (simp add: complete_lines_def)

lemma all_ok_drop: "all_ok d \<Longrightarrow> all_ok (d\<lparr>calls := cs, pending := drop k (pending d)\<rparr>)"
  by (auto simp: all_ok_def list_all_iff dest: in_set_dropD)

lemma Write_ok:
  "all_ok out \<Longrightarrow>
   Write pw out p =
     ((int (length p), None), pw\<lparr>buffer := unterminated (buffer pw @ p)\<rparr>,
      out\<lparr>calls := calls out @ map (\<lambda>l. (prefix pw @ l, True)) (complete_lines (buffer pw @ p)),
           pending := drop (length (complete_lines (buffer pw @ p))) (pending out)\<rparr>)"
  by (simp add: Write_def process_lines_ok)

lemma Writes_ok:
  "all_ok out \<Longrightarrow> newline \<notin> set (buffer pw) \<Longrightarrow>
   Writes pw out chunks =
     (pw\<lparr>buffer := unterminated (buffer pw @ concat chunks)\<rparr>,
      out\<lparr>calls := calls out @ map (\<lambda>l. (prefix pw @ l, True)) (complete_lines (buffer pw @ concat chunks)),
           pending := drop (length (complete_lines (buffer pw @ concat chunks))) (pending out)\<rparr>)"
proof (induction chunks arbitrary: pw out)
  case Nil
  then show ?case
    by (simp add: unterminated_none complete_lines_def lines_from_none)
next
  case (Cons p ps)
  let ?pw = "pw\<lparr>buffer := unterminated (buffer pw @ p)\<rparr>"
  let ?d = "out\<lparr>calls := calls out @ map (\<lambda>l. (prefix pw @ l, True)) (complete_lines (buffer pw @ p)),
           pending := drop (length (complete_lines (buffer pw @ p))) (pending out)\<rparr>"
  have ok: "all_ok ?d" using Cons.prems(1) by (rule all_ok_drop)
  have nn: "newline \<notin> set (buffer ?pw)" by (simp add: unterminated_no_newline)
  have cl: "complete_lines (buffer pw @ p @ concat ps) =
      complete_lines (buffer pw @ p) @ complete_lines (unterminated (buffer pw @ p) @ concat ps)"
    using complete_lines_append [of "buffer pw @ p" "concat ps"] by simp
  have un: "unterminated (buffer pw @ p @ concat ps) = unterminated (unterminated (buffer pw @ p) @ concat ps)"
    using unterminated_append [of "buffer pw @ p" "concat ps"] by simp
  show ?case
    using Cons.IH [OF ok nn]
    by (simp add: Write_ok [OF Cons.prems(1)] cl un add.commute)
qed

text \<open>
  Claim C3. Take any byte sequence, cut in any way into chunks that are passed to
  successive \<open>Write\<close> calls on a fresh sink, all destination writes succeeding. The
  destination receives the same sequence of writes as when the whole sequence is passed in
  one \<open>Write\<close> call. Each of these writes is the prefix followed by one line that ends in
  its only newline, and together the lines are the input without the bytes after its last
  newline: trailing bytes with no newline after them are not written.
\<close>

theorem sink_chunking_independent:
  assumes "all_ok out"
  shows "calls (snd (Writes (new_prefixedWriter pfx d) out chunks)) =
           calls (snd (snd (Write (new_prefixedWriter pfx d) out (concat chunks))))
       \<and> (\<exists>ls. new_calls out (snd (Writes (new_prefixedWriter pfx d) out chunks)) =
                  map (\<lambda>l. (pfx @ l @ [newline], True)) ls
              \<and> (\<forall>l \<in> set ls. newline \<notin> set l)
              \<and> concat (map (\<lambda>l. l @ [newline]) ls) @ unterminated (concat chunks) = concat chunks)"
proof -
  let ?cl = "complete_lines (concat chunks)"
  have W: "calls (snd (Writes (new_prefixedWriter pfx d) out chunks)) =
      calls out @ map (\<lambda>l. (pfx @ l, True)) ?cl"
    using Writes_ok [OF assms, of "new_prefixedWriter pfx d" chunks]
    by (simp add: new_prefixedWriter_def)
  have O: "calls (snd (snd (Write (new_prefixedWriter pfx d) out (concat chunks)))) =
      calls out @ map (\<lambda>l. (pfx @ l, True)) ?cl"
    by (simp add: Write_ok [OF assms] new_prefixedWriter_def)
  have shape: "\<forall>l \<in> set ?cl. l = butlast l @ [newline] \<and> newline \<notin> set (butlast l)"
    using lines_from_shape [of "[]" _ "concat chunks"] by (fastforce simp: complete_lines_def)
  then have relines: "map (\<lambda>l. l @ [newline]) (map butlast ?cl) = ?cl"
    by (simp add: map_idI)
  have a: "new_calls out (snd (Writes (new_prefixedWriter pfx d) out chunks)) =
      map (\<lambda>l. (pfx @ l @ [newline], True)) (map butlast ?cl)"
    using shape by (simp add: new_calls_def W)
  have b: "\<forall>l \<in> set (map butlast ?cl). newline \<notin> set l"
    using shape by simp
  have c: "concat (map (\<lambda>l. l @ [newline]) (map butlast ?cl)) @ unterminated (concat chunks) = concat chunks"
    by (simp only: relines complete_lines_concat)
  have "\<exists>ls. new_calls out (snd (Writes (new_prefixedWriter pfx d) out chunks)) =
                  map (\<lambda>l. (pfx @ l @ [newline], True)) ls
              \<and> (\<forall>l \<in> set ls. newline \<notin> set l)
              \<and> concat (map (\<lambda>l. l @ [newline]) ls) @ unterminated (concat chunks) = concat chunks"
    using a b c by (intro exI [of _ "map butlast ?cl"] conjI)
  then show ?thesis by (simp only: W O simp_thms)
qed

theorem sink_chunking_independent_witness:
  "all_ok \<lparr>calls = [], pending = [True, True]\<rparr>
   \<and> calls (snd (Writes (new_prefixedWriter [80] Stdout) \<lparr>calls = [], pending = [True, True]\<rparr>
                [[97], [10, 98], [10, 99]])) =
       [([80, 97, 10], True), ([80, 98, 10], True)]
   \<and> (calls (snd (Writes (new_prefixedWriter [80] Stdout) \<lparr>calls = [], pending = [True, True]\<rparr>
                 [[97], [10, 98], [10, 99]])) =
        calls (snd (snd (Write (new_prefixedWriter [80] Stdout) \<lparr>calls = [], pending = [True, True]\<rparr>
                 (concat [[97], [10, 98], [10, 99]]))))
      \<and> (\<exists>ls. new_calls \<lparr>calls = [], pending = [True, True]\<rparr>
                  (snd (Writes (new_prefixedWriter [80] Stdout) \<lparr>calls = [], pending = [True, True]\<rparr>
                     [[97], [10, 98], [10, 99]])) =
                map (\<lambda>l. ([80] @ l @ [newline], True)) ls
             \<and> (\<forall>l \<in> set ls. newline \<notin> set l)
             \<and> concat (map (\<lambda>l. l @ [newline]) ls) @ unterminated (concat [[97], [10, 98], [10, 99]]) =
                 concat [[97], [10, 98], [10, 99]]))"
proof -
  have h: "all_ok \<lparr>calls = [], pending = [True, True]\<rparr>"
    by code_simp
  have v: "calls (snd (Writes (new_prefixedWriter [80] Stdout) \<lparr>calls = [], pending = [True, True]\<rparr>
                [[97], [10, 98], [10, 99]])) =
       [([80, 97, 10], True), ([80, 98, 10], True)]"
    by code_simp
  show ?thesis
    using sink_chunking_independent [OF h, where pfx = "[80]" and d = Stdout and chunks = "[[97], [10, 98], [10, 99]]"]
    by (intro conjI h v) blast+
qed

lemma pl_break:
  "lineEnd (buffer pw) = - 1 \<Longrightarrow> process_lines n pw out = ((n, None), pw, out)"
  by (subst process_lines.simps) simp

lemma pl_fail:
  "lineEnd (buffer pw) \<noteq> - 1 \<Longrightarrow>
   fst (file_Write out (prefix pw @ take (nat (lineEnd (buffer pw) + 1)) (buffer pw))) \<noteq> None \<Longrightarrow>
   process_lines n pw out =
     ((n, None), pw, snd (file_Write out (prefix pw @ take (nat (lineEnd (buffer pw) + 1)) (buffer pw))))"
  by (subst process_lines.simps) (simp add: Let_def)

lemma pl_step:
  "lineEnd (buffer pw) \<noteq> - 1 \<Longrightarrow>
   fst (file_Write out (prefix pw @ take (nat (lineEnd (buffer pw) + 1)) (buffer pw))) = None \<Longrightarrow>
   process_lines n pw out =
     process_lines n (pw\<lparr>buffer := drop (nat (lineEnd (buffer pw) + 1)) (buffer pw)\<rparr>)
       (snd (file_Write out (prefix pw @ take (nat (lineEnd (buffer pw) + 1)) (buffer pw))))"
  by (subst process_lines.simps) (simp add: Let_def)

lemma file_Write_calls:
  "calls (snd (file_Write d bs)) = calls d @ [(bs, fst (file_Write d bs) = None)]"
  by (cases "pending d") (auto simp: file_Write_def)

lemma process_lines_result: "fst (process_lines n pw out) = (n, None)"
proof (induction n pw out rule: process_lines.induct)
  case (1 n pw out)
  let ?w = "file_Write out (prefix pw @ take (nat (lineEnd (buffer pw) + 1)) (buffer pw))"
  consider "lineEnd (buffer pw) = - 1"
    | "lineEnd (buffer pw) \<noteq> - 1" "fst ?w \<noteq> None"
    | "lineEnd (buffer pw) \<noteq> - 1" "fst ?w = None"
    by blast
  then show ?case
  proof cases
    case 1
    then show ?thesis by (simp add: pl_break)
  next
    case 2
    then show ?thesis by (simp add: pl_fail)
  next
    case 3
    then show ?thesis using "1.IH" [OF refl 3(1) refl refl refl] by (simp add: pl_step)
  qed
qed

text \<open>
  Claim C8. For every input chunk \<open>p\<close>, whatever the state of the sink and whatever the
  destination does (failing writes included), \<open>Write\<close> returns \<open>(len(p), nil)\<close>.
\<close>

theorem Write_reports_full_length: "fst (Write pw out p) = (int (length p), None)"
  by (simp add: Write_def process_lines_result)

lemma process_lines_trace:
  "\<exists>cs c. calls (snd (snd (process_lines n pw out))) = calls out @ cs
     \<and> buffer pw = c @ buffer (fst (snd (process_lines n pw out)))
     \<and> (c = [] \<or> last c = newline)
     \<and> prefix (fst (snd (process_lines n pw out))) = prefix pw
     \<and> ((\<forall>x \<in> set cs. snd x) \<longrightarrow> newline \<notin> set (buffer (fst (snd (process_lines n pw out)))))
     \<and> (cs \<noteq> [] \<and> \<not> snd (last cs) \<longrightarrow>
          lineEnd (buffer (fst (snd (process_lines n pw out)))) \<noteq> - 1 \<and>
          fst (last cs) = prefix pw @ take (nat (lineEnd (buffer (fst (snd (process_lines n pw out)))) + 1))
                                        (buffer (fst (snd (process_lines n pw out)))))"
proof (induction n pw out rule: process_lines.induct)
  case (1 n pw out)
  let ?k = "nat (lineEnd (buffer pw) + 1)"
  let ?w = "file_Write out (prefix pw @ take ?k (buffer pw))"
  consider "lineEnd (buffer pw) = - 1"
    | "lineEnd (buffer pw) \<noteq> - 1" "fst ?w \<noteq> None"
    | "lineEnd (buffer pw) \<noteq> - 1" "fst ?w = None"
    by blast
  then show ?case
  proof cases
    case 1
    then have "newline \<notin> set (buffer pw)" by (simp add: lineEnd_none)
    then show ?thesis using 1 by (simp add: pl_break)
  next
    case 2
    show ?thesis
      apply (rule exI [of _ "[(prefix pw @ take ?k (buffer pw), False)]"])
      apply (rule exI [of _ "[]"])
      using 2 apply (simp add: pl_fail file_Write_calls)
      done
  next
    case 3
    let ?pw = "pw\<lparr>buffer := drop ?k (buffer pw)\<rparr>"
    let ?r = "process_lines n ?pw (snd ?w)"
    obtain cs c where IH: "calls (snd (snd ?r)) = calls (snd ?w) @ cs"
      "buffer ?pw = c @ buffer (fst (snd ?r))" "c = [] \<or> last c = newline"
      "prefix (fst (snd ?r)) = prefix ?pw"
      "(\<forall>x \<in> set cs. snd x) \<longrightarrow> newline \<notin> set (buffer (fst (snd ?r)))"
      "cs \<noteq> [] \<and> \<not> snd (last cs) \<longrightarrow> lineEnd (buffer (fst (snd ?r))) \<noteq> - 1 \<and>
          fst (last cs) = prefix ?pw @ take (nat (lineEnd (buffer (fst (snd ?r))) + 1)) (buffer (fst (snd ?r)))"
      using "1.IH" [OF refl 3(1) refl refl refl] 3(2) by auto
    obtain w where w: "take ?k (buffer pw) = w @ [newline]"
      using lineEnd_split [OF 3(1)] by blast
    have eq: "process_lines n pw out = ?r" using 3 by (rule pl_step)
    have b: "buffer pw = (take ?k (buffer pw) @ c) @ buffer (fst (snd ?r))"
      using IH(2) append_take_drop_id [of ?k "buffer pw"] by simp
    have l: "last (take ?k (buffer pw) @ c) = newline"
      using IH(3) w by auto
    show ?thesis
      apply (rule exI [of _ "(prefix pw @ take ?k (buffer pw), True) # cs"])
      apply (rule exI [of _ "take ?k (buffer pw) @ c"])
      apply (simp only: eq)
      using IH(1,4,5,6) b l 3(2) apply (simp add: file_Write_calls)
      done
  qed
qed

lemma unterminated_tail:
  "c = [] \<or> last c = newline \<Longrightarrow> newline \<notin> set b \<Longrightarrow> unterminated (c @ b) = b"
proof (cases "c = []")
  case True
  assume "newline \<notin> set b"
  then show ?thesis using True by (simp add: unterminated_none)
next
  case False
  assume "c = [] \<or> last c = newline" and b: "newline \<notin> set b"
  then have "butlast c @ [newline] = c"
    using False append_butlast_last_id [OF False] by simp
  then obtain u where u: "c = u @ [newline]"
    by (rule that [OF sym])
  show ?thesis
    unfolding u by (simp add: unterminated_line unterminated_none [OF b])
qed

lemma Write_trace:
  "\<exists>cs c. calls (snd (snd (Write pw out p))) = calls out @ cs
     \<and> buffer pw @ p = c @ buffer (fst (snd (Write pw out p)))
     \<and> (c = [] \<or> last c = newline)
     \<and> prefix (fst (snd (Write pw out p))) = prefix pw
     \<and> ((\<forall>x \<in> set cs. snd x) \<longrightarrow> newline \<notin> set (buffer (fst (snd (Write pw out p)))))
     \<and> (cs \<noteq> [] \<and> \<not> snd (last cs) \<longrightarrow>
          lineEnd (buffer (fst (snd (Write pw out p)))) \<noteq> - 1 \<and>
          fst (last cs) = prefix pw @ take (nat (lineEnd (buffer (fst (snd (Write pw out p)))) + 1))
                                        (buffer (fst (snd (Write pw out p)))))"
  using process_lines_trace [of "int (length p)" "pw\<lparr>buffer := buffer pw @ p\<rparr>" out]
  by (simp add: Write_def)

lemma Writes_suffix:
  "\<exists>c. buffer pw @ concat chunks = c @ buffer (fst (Writes pw out chunks)) \<and> (c = [] \<or> last c = newline)"
proof (induction chunks arbitrary: pw out)
  case Nil
  show ?case by simp
next
  case (Cons p ps)
  let ?pw = "fst (snd (Write pw out p))" and ?d = "snd (snd (Write pw out p))"
  obtain c1 where c1: "buffer pw @ p = c1 @ buffer ?pw" "c1 = [] \<or> last c1 = newline"
    using Write_trace [of pw out p] by blast
  obtain c2 where c2: "buffer ?pw @ concat ps = c2 @ buffer (fst (Writes ?pw ?d ps))"
    "c2 = [] \<or> last c2 = newline"
    using Cons.IH [of ?pw ?d] by blast
  have "buffer pw @ concat (p # ps) = (buffer pw @ p) @ concat ps"
    by simp
  also have "\<dots> = (c1 @ buffer ?pw) @ concat ps"
    by (simp only: c1(1))
  also have "\<dots> = c1 @ (buffer ?pw @ concat ps)"
    by simp
  also have "\<dots> = (c1 @ c2) @ buffer (fst (Writes ?pw ?d ps))"
    by (simp only: c2(1) append_assoc)
  finally have "buffer pw @ concat (p # ps) = (c1 @ c2) @ buffer (fst (Writes pw out (p # ps)))"
    by simp
  moreover have "c1 @ c2 = [] \<or> last (c1 @ c2) = newline"
    using c1(2) c2(2) by (cases "c2 = []") auto
  ultimately show ?case by blast
qed

text \<open>
  Claim C10. Let a fresh sink receive any chunks (whatever the destination did then), and
  let it then receive a chunk \<open>p\<close> in a \<open>Write\<close> call all of whose destination writes
  succeed. After that call the buffer holds no newline: it is the bytes after the last
  newline of everything written to the sink so far.
\<close>

theorem buffer_is_unterminated_suffix:
  assumes "Writes (new_prefixedWriter pfx d) dest0 chunks = (pw, out)"
    and "\<forall>c \<in> set (new_calls out (snd (snd (Write pw out p)))). snd c"
  shows "buffer (fst (snd (Write pw out p))) = unterminated (concat chunks @ p)
       \<and> newline \<notin> set (buffer (fst (snd (Write pw out p))))"
proof -
  let ?pw = "fst (snd (Write pw out p))"
  obtain c where c: "concat chunks = c @ buffer pw" "c = [] \<or> last c = newline"
    using Writes_suffix [of "new_prefixedWriter pfx d" chunks dest0] assms(1)
    by (auto simp: new_prefixedWriter_def)
  obtain cs c' where t: "calls (snd (snd (Write pw out p))) = calls out @ cs"
    "buffer pw @ p = c' @ buffer ?pw" "c' = [] \<or> last c' = newline"
    "(\<forall>x \<in> set cs. snd x) \<longrightarrow> newline \<notin> set (buffer ?pw)"
    using Write_trace [of pw out p] by blast
  have nn: "newline \<notin> set (buffer ?pw)"
    using t(1,4) assms(2) by (simp add: new_calls_def)
  have whole: "concat chunks @ p = (c @ c') @ buffer ?pw"
    using c(1) t(2) by simp
  have "c @ c' = [] \<or> last (c @ c') = newline"
    using c(2) t(3) by (cases "c' = []") auto
  then have "unterminated ((c @ c') @ buffer ?pw) = buffer ?pw"
    using nn by (rule unterminated_tail)
  then have "unterminated (concat chunks @ p) = buffer ?pw"
    by (simp only: whole)
  then show ?thesis using nn by simp
qed

theorem buffer_is_unterminated_suffix_witness:
  "Writes (new_prefixedWriter [80] Stdout) \<lparr>calls = [], pending = [False]\<rparr> [[97, 10]] =
     (\<lparr>prefix = [80], dest = Stdout, buffer = [97, 10]\<rparr>, \<lparr>calls = [([80, 97, 10], False)], pending = []\<rparr>)
   \<and> new_calls \<lparr>calls = [([80, 97, 10], False)], pending = []\<rparr>
         (snd (snd (Write \<lparr>prefix = [80], dest = Stdout, buffer = [97, 10]\<rparr>
                      \<lparr>calls = [([80, 97, 10], False)], pending = []\<rparr> [98, 10, 99]))) =
       [([80, 97, 10], True), ([80, 98, 10], True)]
   \<and> buffer (fst (snd (Write \<lparr>prefix = [80], dest = Stdout, buffer = [97, 10]\<rparr>
                         \<lparr>calls = [([80, 97, 10], False)], pending = []\<rparr> [98, 10, 99]))) = [99]
   \<and> (buffer (fst (snd (Write \<lparr>prefix = [80], dest = Stdout, buffer = [97, 10]\<rparr>
                         \<lparr>calls = [([80, 97, 10], False)], pending = []\<rparr> [98, 10, 99]))) =
        unterminated (concat [[97, 10]] @ [98, 10, 99])
      \<and> newline \<notin> set (buffer (fst (snd (Write \<lparr>prefix = [80], dest = Stdout, buffer = [97, 10]\<rparr>
                         \<lparr>calls = [([80, 97, 10], False)], pending = []\<rparr> [98, 10, 99])))))"
proof -
  have h1: "Writes (new_prefixedWriter [80] Stdout) \<lparr>calls = [], pending = [False]\<rparr> [[97, 10]] =
     (\<lparr>prefix = [80], dest = Stdout, buffer = [97, 10]\<rparr>, \<lparr>calls = [([80, 97, 10], False)], pending = []\<rparr>)"
    by code_simp
  have n: "new_calls \<lparr>calls = [([80, 97, 10], False)], pending = []\<rparr>
         (snd (snd (Write \<lparr>prefix = [80], dest = Stdout, buffer = [97, 10]\<rparr>
                      \<lparr>calls = [([80, 97, 10], False)], pending = []\<rparr> [98, 10, 99]))) =
       [([80, 97, 10], True), ([80, 98, 10], True)]"
    by code_simp
  have h2: "\<forall>c \<in> set (new_calls \<lparr>calls = [([80, 97, 10], False)], pending = []\<rparr>
                   (snd (snd (Write \<lparr>prefix = [80], dest = Stdout, buffer = [97, 10]\<rparr>
                                \<lparr>calls = [([80, 97, 10], False)], pending = []\<rparr> [98, 10, 99])))). snd c"
    by (simp only: n) simp
  have v: "buffer (fst (snd (Write \<lparr>prefix = [80], dest = Stdout, buffer = [97, 10]\<rparr>
                         \<lparr>calls = [([80, 97, 10], False)], pending = []\<rparr> [98, 10, 99]))) = [99]"
    by code_simp
  show ?thesis
    using buffer_is_unterminated_suffix [OF h1 h2]
    by (intro conjI h1 n v) blast+
qed

lemma scan_append: "newline \<in> set b \<Longrightarrow> scan (b @ q) i = scan b i"
  by (induction b arbitrary: i) auto

lemma file_Write_outcome: "fst (file_Write d bs) = None \<longleftrightarrow> pending d = [] \<or> hd (pending d)"
  by (cases "pending d") (auto simp: file_Write_def)

lemma Write_first_call:
  assumes "lineEnd (buffer pw) \<noteq> - 1"
  shows "\<exists>cs. calls (snd (snd (Write pw d q))) =
           calls d @ (prefix pw @ take (nat (lineEnd (buffer pw) + 1)) (buffer pw),
                      pending d = [] \<or> hd (pending d)) # cs"
proof -
  let ?k = "nat (lineEnd (buffer pw) + 1)"
  let ?pw = "pw\<lparr>buffer := buffer pw @ q\<rparr>"
  have mem: "newline \<in> set (buffer pw)" using assms by (simp add: lineEnd_none)
  have le: "lineEnd (buffer pw @ q) = lineEnd (buffer pw)"
    using mem by (simp add: lineEnd_def scan_append)
  have tk: "?k \<le> length (buffer pw)"
    using lineEnd_split [OF assms] by blast
  let ?w = "file_Write d (prefix pw @ take ?k (buffer pw))"
  show ?thesis
  proof (cases "fst ?w = None")
    case False
    have "process_lines (int (length q)) ?pw d = ((int (length q), None), ?pw, snd ?w)"
      using pl_fail [of ?pw d "int (length q)"] assms False by (simp add: le tk)
    then show ?thesis using False
      by (simp add: Write_def file_Write_calls file_Write_outcome)
  next
    case True
    let ?pw2 = "?pw\<lparr>buffer := drop ?k (buffer ?pw)\<rparr>"
    have "process_lines (int (length q)) ?pw d = process_lines (int (length q)) ?pw2 (snd ?w)"
      using pl_step [of ?pw d "int (length q)"] assms True by (simp add: le tk)
    moreover obtain cs where "calls (snd (snd (process_lines (int (length q)) ?pw2 (snd ?w)))) = calls (snd ?w) @ cs"
      using process_lines_trace [of "int (length q)" ?pw2 "snd ?w"] by blast
    ultimately show ?thesis using True
      by (simp add: Write_def file_Write_calls file_Write_outcome)
  qed
qed

lemma process_lines_calls:
  "\<exists>done. buffer pw = concat done @ buffer (fst (snd (process_lines n pw out)))
     \<and> (calls (snd (snd (process_lines n pw out))) =
           calls out @ map (\<lambda>l. (prefix pw @ l, True)) done
        \<or> lineEnd (buffer (fst (snd (process_lines n pw out)))) \<noteq> - 1
          \<and> calls (snd (snd (process_lines n pw out))) =
              calls out @ map (\<lambda>l. (prefix pw @ l, True)) done @
              [(prefix pw @ take (nat (lineEnd (buffer (fst (snd (process_lines n pw out)))) + 1))
                                 (buffer (fst (snd (process_lines n pw out)))), False)])"
proof (induction n pw out rule: process_lines.induct)
  case (1 n pw out)
  let ?k = "nat (lineEnd (buffer pw) + 1)"
  let ?w = "file_Write out (prefix pw @ take ?k (buffer pw))"
  consider "lineEnd (buffer pw) = - 1"
    | "lineEnd (buffer pw) \<noteq> - 1" "fst ?w \<noteq> None"
    | "lineEnd (buffer pw) \<noteq> - 1" "fst ?w = None"
    by blast
  then show ?case
  proof cases
    case 1
    show ?thesis
      by (rule exI [of _ "[]"]) (simp add: pl_break 1)
  next
    case 2
    show ?thesis
      by (rule exI [of _ "[]"]) (use 2 in \<open>simp add: pl_fail file_Write_calls\<close>)
  next
    case 3
    let ?pw = "pw\<lparr>buffer := drop ?k (buffer pw)\<rparr>"
    let ?r = "process_lines n ?pw (snd ?w)"
    let ?b = "buffer (fst (snd ?r))"
    obtain dn where IH: "buffer ?pw = concat dn @ ?b"
      "calls (snd (snd ?r)) = calls (snd ?w) @ map (\<lambda>l. (prefix ?pw @ l, True)) dn
        \<or> lineEnd ?b \<noteq> - 1
          \<and> calls (snd (snd ?r)) = calls (snd ?w) @ map (\<lambda>l. (prefix ?pw @ l, True)) dn @
              [(prefix ?pw @ take (nat (lineEnd ?b + 1)) ?b, False)]"
      using "1.IH" [OF refl 3(1) refl refl refl] 3(2) by auto
    have eq: "process_lines n pw out = ?r" using 3 by (rule pl_step)
    have b: "buffer pw = concat (take ?k (buffer pw) # dn) @ ?b"
      using IH(1) append_take_drop_id [of ?k "buffer pw"] by simp
    have c: "calls (snd ?w) = calls out @ [(prefix pw @ take ?k (buffer pw), True)]"
      using 3(2) by (simp add: file_Write_calls)
    show ?thesis
      apply (rule exI [of _ "take ?k (buffer pw) # dn"])
      apply (simp only: eq)
      using IH(2) b c apply auto
      done
  qed
qed

text \<open>
  Claim C9, as the code has it. When a destination write fails during a \<open>Write\<close> call,
  the call returns \<open>(len(p), nil)\<close> at once: the failed write is the last destination
  write of the call, after the writes of the lines before it, which succeeded. Only
  those lines have left the buffer. The line of the failed write is not dropped: it is
  the first line of the buffer that the call leaves, so the next \<open>Write\<close> call on the
  sink, whatever chunk it brings and whatever destination state it meets, first writes
  that same prefixed line again, and the line reaches the destination if that write
  succeeds.
\<close>

theorem failed_line_is_retried:
  assumes "Write pw out p = (r, pw', out')"
    and "(c, False) \<in> set (new_calls out out')"
  shows "r = (int (length p), None)
       \<and> (\<exists>done. new_calls out out' = map (\<lambda>l. (prefix pw @ l, True)) done @ [(c, False)]
                 \<and> buffer pw @ p = concat done @ buffer pw')
       \<and> lineEnd (buffer pw') \<noteq> - 1
       \<and> c = prefix pw @ take (nat (lineEnd (buffer pw') + 1)) (buffer pw')
       \<and> prefix pw' = prefix pw
       \<and> (\<forall>dest2 q. new_calls dest2 (snd (snd (Write pw' dest2 q))) \<noteq> []
            \<and> hd (new_calls dest2 (snd (snd (Write pw' dest2 q)))) =
                (c, pending dest2 = [] \<or> hd (pending dest2)))"
proof -
  let ?k = "nat (lineEnd (buffer pw') + 1)"
  let ?pw = "pw\<lparr>buffer := buffer pw @ p\<rparr>"
  have W: "process_lines (int (length p)) ?pw out = (r, pw', out')"
    using assms(1) by (simp add: Write_def)
  have r: "r = (int (length p), None)"
    using process_lines_result [of "int (length p)" ?pw out] W by simp
  have pre: "prefix pw' = prefix pw"
    using Write_trace [of pw out p] assms(1) by auto
  obtain dn where dn: "buffer pw @ p = concat dn @ buffer pw'"
    "calls out' = calls out @ map (\<lambda>l. (prefix pw @ l, True)) dn
      \<or> lineEnd (buffer pw') \<noteq> - 1
        \<and> calls out' = calls out @ map (\<lambda>l. (prefix pw @ l, True)) dn @
            [(prefix pw @ take ?k (buffer pw'), False)]"
    using process_lines_calls [of ?pw "int (length p)" out] W by auto
  have no: "calls out' \<noteq> calls out @ map (\<lambda>l. (prefix pw @ l, True)) dn"
  proof
    assume "calls out' = calls out @ map (\<lambda>l. (prefix pw @ l, True)) dn"
    then have "new_calls out out' = map (\<lambda>l. (prefix pw @ l, True)) dn"
      by (simp add: new_calls_def)
    then show False using assms(2) by auto
  qed
  then have le: "lineEnd (buffer pw') \<noteq> - 1"
    and cs: "calls out' = calls out @ map (\<lambda>l. (prefix pw @ l, True)) dn @
            [(prefix pw @ take ?k (buffer pw'), False)]"
    using dn(2) by blast+
  have nc: "new_calls out out' = map (\<lambda>l. (prefix pw @ l, True)) dn @
            [(prefix pw @ take ?k (buffer pw'), False)]"
    by (simp add: new_calls_def cs)
  have c: "c = prefix pw @ take ?k (buffer pw')"
    using assms(2) by (auto simp: nc)
  have ex: "\<exists>done. new_calls out out' = map (\<lambda>l. (prefix pw @ l, True)) done @ [(c, False)]
                 \<and> buffer pw @ p = concat done @ buffer pw'"
    by (rule exI [of _ dn]) (simp add: nc c dn(1))
  have retry: "new_calls dest2 (snd (snd (Write pw' dest2 q))) \<noteq> []
            \<and> hd (new_calls dest2 (snd (snd (Write pw' dest2 q)))) =
                (c, pending dest2 = [] \<or> hd (pending dest2))" for dest2 q
  proof -
    obtain cs2 where "calls (snd (snd (Write pw' dest2 q))) =
        calls dest2 @ (prefix pw' @ take ?k (buffer pw'), pending dest2 = [] \<or> hd (pending dest2)) # cs2"
      using Write_first_call [OF le, of dest2 q] by blast
    then have "new_calls dest2 (snd (snd (Write pw' dest2 q))) =
        (prefix pw' @ take ?k (buffer pw'), pending dest2 = [] \<or> hd (pending dest2)) # cs2"
      by (simp add: new_calls_def)
    then show ?thesis by (simp add: c pre)
  qed
  show ?thesis using r ex le c pre retry by blast
qed

theorem failed_line_is_retried_witness:
  "Write (new_prefixedWriter [80] Stdout) \<lparr>calls = [], pending = [True, False]\<rparr>
         [97, 10, 98, 10, 99] =
     ((5, None), \<lparr>prefix = [80], dest = Stdout, buffer = [98, 10, 99]\<rparr>,
      \<lparr>calls = [([80, 97, 10], True), ([80, 98, 10], False)], pending = []\<rparr>)
   \<and> ([80, 98, 10], False) \<in>
       set (new_calls \<lparr>calls = [], pending = [True, False]\<rparr>
              \<lparr>calls = [([80, 97, 10], True), ([80, 98, 10], False)], pending = []\<rparr>)
   \<and> (\<exists>done. new_calls \<lparr>calls = [], pending = [True, False]\<rparr>
              \<lparr>calls = [([80, 97, 10], True), ([80, 98, 10], False)], pending = []\<rparr> =
               map (\<lambda>l. (prefix (new_prefixedWriter [80] Stdout) @ l, True)) done @
               [([80, 98, 10], False)]
             \<and> buffer (new_prefixedWriter [80] Stdout) @ [97, 10, 98, 10, 99] =
                 concat done @ buffer \<lparr>prefix = [80], dest = Stdout, buffer = [98, 10, 99]\<rparr>)
   \<and> (\<forall>dest2 q.
         new_calls dest2 (snd (snd (Write \<lparr>prefix = [80], dest = Stdout, buffer = [98, 10, 99]\<rparr> dest2 q))) \<noteq> []
         \<and> hd (new_calls dest2 (snd (snd (Write \<lparr>prefix = [80], dest = Stdout, buffer = [98, 10, 99]\<rparr> dest2 q)))) =
             ([80, 98, 10], pending dest2 = [] \<or> hd (pending dest2)))"
proof -
  have h1: "Write (new_prefixedWriter [80] Stdout) \<lparr>calls = [], pending = [True, False]\<rparr>
         [97, 10, 98, 10, 99] =
     ((5, None), \<lparr>prefix = [80], dest = Stdout, buffer = [98, 10, 99]\<rparr>,
      \<lparr>calls = [([80, 97, 10], True), ([80, 98, 10], False)], pending = []\<rparr>)"
    by code_simp
  have h2: "([80, 98, 10], False) \<in>
       set (new_calls \<lparr>calls = [], pending = [True, False]\<rparr>
              \<lparr>calls = [([80, 97, 10], True), ([80, 98, 10], False)], pending = []\<rparr>)"
    by code_simp
  show ?thesis
    using failed_line_is_retried [OF h1 h2]
    by (intro conjI h1 h2) blast+
qed

text \<open>
  Claim C9 as stated fails. The destination rejects the first write. The sink is given
  \<open>"a\n"\<close> and then \<open>"b\n"\<close>: the write of the first line fails during the first call, and
  the second call writes that line again, now with success, before the second line.
\<close>

theorem failed_line_emitted_later:
  "calls (snd (Writes (new_prefixedWriter [80] Stdout) \<lparr>calls = [], pending = [False]\<rparr>
                [[97, 10], [98, 10]])) =
     [([80, 97, 10], False), ([80, 97, 10], True), ([80, 98, 10], True)]"
  by code_simp


section \<open>Properties of the process manager\<close>

subsection \<open>\<open>Start\<close>\<close>

lemma Start_loop_effects:
  "Start_loop ps pm =
     (None, pm\<lparr>wg := wg pm + int (length ps),
               effects := effects pm @
                 concat (map (\<lambda>proc. [Go proc True, Sleep (500 * Millisecond)] @
                                      (if Critical proc then [Sleep (1 * Second)] else [])) ps) @
                 [Log AllStarted]\<rparr>)"
proof (induction ps arbitrary: pm)
  case Nil
  show ?case by simp
next
  case (Cons proc rest)
  show ?case
    by (simp add: startProcess_def stabilize_def Cons.IH Let_def)
qed

text \<open>\<open>Start\<close> returns nil for every manager: \<open>startProcess\<close> has no other result.\<close>

lemma Start_returns_nil: "fst (Start pm) = None"
  by (simp add: Start_def Start_loop_effects)

text \<open>
  Claim C1 asks that \<open>Start\<close> return an error and launch nothing further when the first
  launch of a critical process fails. The code at that input: the manager has the critical
  process \<open>A\<close>, whose \<open>cmd.Start()\<close> fails, and after it the process \<open>B\<close>. \<open>Start\<close>
  returns nil, and it launches the monitor goroutine of \<open>B\<close> after that of \<open>A\<close>, sleeping
  in between. The goroutine of \<open>A\<close> meets the failure, deletes the entry and returns; the
  goroutine of \<open>B\<close> starts the child of \<open>B\<close>.
\<close>

theorem Start_ignores_critical_failure:
  "fst (Start (NewProcessManager [\<lparr>Name = ''A'', Command = ''/missing'', Args = [], Critical = True, RestartDelay = 0\<rparr>, \<lparr>Name = ''B'', Command = ''/app/b'', Args = [], Critical = False, RestartDelay = 0\<rparr>])) = None
   \<and> effects (snd (Start (NewProcessManager [\<lparr>Name = ''A'', Command = ''/missing'', Args = [], Critical = True, RestartDelay = 0\<rparr>, \<lparr>Name = ''B'', Command = ''/app/b'', Args = [], Critical = False, RestartDelay = 0\<rparr>]))) =
       [Log ManagerStarting,
        Go \<lparr>Name = ''A'', Command = ''/missing'', Args = [], Critical = True, RestartDelay = 0\<rparr> True, Sleep 500000000, Sleep 1000000000,
        Go \<lparr>Name = ''B'', Command = ''/app/b'', Args = [], Critical = False, RestartDelay = 0\<rparr> True, Sleep 500000000,
        Log AllStarted]
   \<and> map fst (fst (goroutine \<lparr>Name = ''A'', Command = ''/missing'', Args = [], Critical = True, RestartDelay = 0\<rparr> True
          [\<lparr>cancel_at_top = False, start_pid = None, wait_err = False, cancel_at_exit = False,
            cancel_in_delay = False\<rparr>]
          (snd (startProcess \<lparr>Name = ''A'', Command = ''/missing'', Args = [], Critical = True, RestartDelay = 0\<rparr> True (NewProcessManager [\<lparr>Name = ''A'', Command = ''/missing'', Args = [], Critical = True, RestartDelay = 0\<rparr>, \<lparr>Name = ''B'', Command = ''/app/b'', Args = [], Critical = False, RestartDelay = 0\<rparr>]))))) =
       [Starting, Stored, StartFailed, DeletedAfterFailure, Done]
   \<and> map fst (fst (goroutine \<lparr>Name = ''B'', Command = ''/app/b'', Args = [], Critical = False, RestartDelay = 0\<rparr> True
          [\<lparr>cancel_at_top = False, start_pid = Some 9, wait_err = False, cancel_at_exit = False,
            cancel_in_delay = False\<rparr>]
          (snd (Start (NewProcessManager [\<lparr>Name = ''A'', Command = ''/missing'', Args = [], Critical = True, RestartDelay = 0\<rparr>, \<lparr>Name = ''B'', Command = ''/app/b'', Args = [], Critical = False, RestartDelay = 0\<rparr>]))))) =
       [Starting, Stored, Started 9, Exited False, DeletedAfterExit, LoggedExit False,
        Restarting 5000000000, DelayElapsed 5000000000]"
  by (simp add: Start_def NewProcessManager_def startProcess_def stabilize_def Millisecond_def
      Second_def iteration_def Let_def restart_delay_def)

text \<open>
  Claim C5 as stated fails: with a single process that is not critical, \<open>Start\<close> still
  sleeps half a second after it has launched the monitor goroutine.
\<close>

theorem noncritical_sleep:
  "effects (snd (Start (NewProcessManager [\<lparr>Name = ''B'', Command = ''/app/b'', Args = [], Critical = False, RestartDelay = 0\<rparr>]))) =
     [Log ManagerStarting, Go \<lparr>Name = ''B'', Command = ''/app/b'', Args = [], Critical = False, RestartDelay = 0\<rparr> True, Sleep 500000000, Log AllStarted]"
  by (simp add: Start_def NewProcessManager_def startProcess_def stabilize_def Millisecond_def)

text \<open>
  Claim C5, as the code has it. \<open>Start\<close> goes through the processes in their order. After
  it has launched the monitor goroutine of a process it sleeps 500 milliseconds, whether
  the process is critical or not, and then one second more when, and only when, the
  process is critical. It does nothing else between the first and the last log line.
\<close>

theorem Start_sleeps:
  "effects (snd (Start pm)) =
     effects pm @ [Log ManagerStarting] @
     concat (map (\<lambda>proc. [Go proc True, Sleep (500 * Millisecond)] @
                          (if Critical proc then [Sleep (1 * Second)] else []))
                 (processes pm)) @
     [Log AllStarted]"
  by (simp add: Start_def Start_loop_effects)

subsection \<open>The monitor goroutine\<close>

text \<open>
  With \<open>initial\<close> set, as \<open>Start\<close> sets it for every goroutine, a pass in which
  \<open>cmd.Start()\<close> fails ends the loop, whichever pass it is.
\<close>

lemma initial_failure_returns:
  "\<not> ctx_done pm \<Longrightarrow> \<not> cancel_at_top e \<Longrightarrow> start_pid e = None \<Longrightarrow>
   fst (snd (iteration proc True e pm)) = Return"
  by (simp add: iteration_def Let_def)

text \<open>
  Claim C2 asks that a start failure after a first successful start be followed by another
  attempt, without end. The code at such an input: the child of \<open>W\<close> starts with pid 7
  and exits with an error; after the delay of five seconds \<open>cmd.Start()\<close> fails; the
  environment would let a third attempt succeed. The goroutine returns after the failed
  attempt, with no cancellation requested, and makes no third attempt.
\<close>

theorem restart_failure_ends_monitor:
  "map fst (fst (goroutine \<lparr>Name = ''W'', Command = ''/app/w'', Args = [], Critical = False, RestartDelay = 0\<rparr> True
          [\<lparr>cancel_at_top = False, start_pid = Some 7, wait_err = True, cancel_at_exit = False,
            cancel_in_delay = False\<rparr>,
           \<lparr>cancel_at_top = False, start_pid = None, wait_err = False, cancel_at_exit = False,
            cancel_in_delay = False\<rparr>,
           \<lparr>cancel_at_top = False, start_pid = Some 8, wait_err = False, cancel_at_exit = False,
            cancel_in_delay = False\<rparr>]
          (snd (startProcess \<lparr>Name = ''W'', Command = ''/app/w'', Args = [], Critical = False, RestartDelay = 0\<rparr> True (NewProcessManager [\<lparr>Name = ''W'', Command = ''/app/w'', Args = [], Critical = False, RestartDelay = 0\<rparr>]))))) =
     [Starting, Stored, Started 7, Exited True, DeletedAfterExit, LoggedExit True,
      Restarting 5000000000, DelayElapsed 5000000000,
      Starting, Stored, StartFailed, DeletedAfterFailure, Done]
   \<and> fst (snd (goroutine \<lparr>Name = ''W'', Command = ''/app/w'', Args = [], Critical = False, RestartDelay = 0\<rparr> True
          [\<lparr>cancel_at_top = False, start_pid = Some 7, wait_err = True, cancel_at_exit = False,
            cancel_in_delay = False\<rparr>,
           \<lparr>cancel_at_top = False, start_pid = None, wait_err = False, cancel_at_exit = False,
            cancel_in_delay = False\<rparr>,
           \<lparr>cancel_at_top = False, start_pid = Some 8, wait_err = False, cancel_at_exit = False,
            cancel_in_delay = False\<rparr>]
          (snd (startProcess \<lparr>Name = ''W'', Command = ''/app/w'', Args = [], Critical = False, RestartDelay = 0\<rparr> True (NewProcessManager [\<lparr>Name = ''W'', Command = ''/app/w'', Args = [], Critical = False, RestartDelay = 0\<rparr>]))))) = Returned
   \<and> ctx_done (snd (snd (goroutine \<lparr>Name = ''W'', Command = ''/app/w'', Args = [], Critical = False, RestartDelay = 0\<rparr> True
          [\<lparr>cancel_at_top = False, start_pid = Some 7, wait_err = True, cancel_at_exit = False,
            cancel_in_delay = False\<rparr>,
           \<lparr>cancel_at_top = False, start_pid = None, wait_err = False, cancel_at_exit = False,
            cancel_in_delay = False\<rparr>,
           \<lparr>cancel_at_top = False, start_pid = Some 8, wait_err = False, cancel_at_exit = False,
            cancel_in_delay = False\<rparr>]
          (snd (startProcess \<lparr>Name = ''W'', Command = ''/app/w'', Args = [], Critical = False, RestartDelay = 0\<rparr> True (NewProcessManager [\<lparr>Name = ''W'', Command = ''/app/w'', Args = [], Critical = False, RestartDelay = 0\<rparr>])))))) = False
   \<and> effects (snd (Start (NewProcessManager [\<lparr>Name = ''W'', Command = ''/app/w'', Args = [], Critical = False, RestartDelay = 0\<rparr>]))) =
       [Log ManagerStarting, Go \<lparr>Name = ''W'', Command = ''/app/w'', Args = [], Critical = False, RestartDelay = 0\<rparr> True, Sleep 500000000, Log AllStarted]"
  by (simp add: Start_def NewProcessManager_def startProcess_def stabilize_def Millisecond_def
      Second_def iteration_def Let_def restart_delay_def)

lemma removed_at_once_append:
  "removed_at_once xs \<Longrightarrow> removed_at_once ys \<Longrightarrow> removed_at_once (xs @ ys)"
  by (induction xs rule: removed_at_once.induct) (auto split: list.splits point.splits)

lemma iteration_handle:
  assumes "running pm (Name proc) = None"
  shows "list_all (handle_at proc) (fst (iteration proc initial e pm))
       \<and> removed_at_once (fst (iteration proc initial e pm))
       \<and> running (snd (snd (iteration proc initial e pm))) (Name proc) = None"
  using assms
  by (cases "start_pid e")
     (simp_all add: iteration_def Let_def handle_process_def CommandContext_def)

text \<open>
  Claim C6 as stated fails. In the first pass of the goroutine of \<open>W\<close>, at the place after
  the store and before \<open>cmd.Start()\<close>, the map holds the command of \<open>W\<close> and the process
  of that command is nil: no child has been started yet.
\<close>

theorem handle_stored_before_start:
  "fst (fst (goroutine \<lparr>Name = ''W'', Command = ''/app/w'', Args = [], Critical = False, RestartDelay = 0\<rparr> True
          [\<lparr>cancel_at_top = False, start_pid = Some 8, wait_err = False, cancel_at_exit = False,
            cancel_in_delay = False\<rparr>]
          (snd (startProcess \<lparr>Name = ''W'', Command = ''/app/w'', Args = [], Critical = False, RestartDelay = 0\<rparr> True (NewProcessManager [\<lparr>Name = ''W'', Command = ''/app/w'', Args = [], Critical = False, RestartDelay = 0\<rparr>])))) ! 1) = Stored
   \<and> handle_process
        (snd (fst (goroutine \<lparr>Name = ''W'', Command = ''/app/w'', Args = [], Critical = False, RestartDelay = 0\<rparr> True
          [\<lparr>cancel_at_top = False, start_pid = Some 8, wait_err = False, cancel_at_exit = False,
            cancel_in_delay = False\<rparr>]
          (snd (startProcess \<lparr>Name = ''W'', Command = ''/app/w'', Args = [], Critical = False, RestartDelay = 0\<rparr> True (NewProcessManager [\<lparr>Name = ''W'', Command = ''/app/w'', Args = [], Critical = False, RestartDelay = 0\<rparr>])))) ! 1)) ''W'' = Some None"
  by (simp add: NewProcessManager_def startProcess_def iteration_def Let_def
      handle_process_def CommandContext_def)

text \<open>
  Claim C6, as the code has it. Take a monitor goroutine whose process has no entry in the
  map when it begins, run against any environment. The entry is made just before each
  start attempt: from the store until the failure of the attempt is logged the map holds
  a command whose process is nil; once the child has started and until \<open>cmd.Wait()\<close> has
  returned it holds the command with the child's handle; at every other place it holds
  nothing for the process. The entry is deleted directly after a failed attempt and
  directly after \<open>cmd.Wait()\<close> returns.
\<close>

theorem handle_lifetime:
  assumes "running pm (Name proc) = None"
  shows "list_all (handle_at proc) (fst (goroutine proc initial envs pm))
       \<and> removed_at_once (fst (goroutine proc initial envs pm))"
  using assms
proof (induction envs arbitrary: pm)
  case Nil
  show ?case by simp
next
  case (Cons e es)
  obtain steps c pm' where it: "iteration proc initial e pm = (steps, c, pm')"
    by (cases "iteration proc initial e pm") auto
  have h: "list_all (handle_at proc) steps" "removed_at_once steps" "running pm' (Name proc) = None"
    using iteration_handle [OF Cons.prems, of initial e] by (simp_all add: it)
  show ?case
  proof (cases c)
    case Return
    have "removed_at_once (steps @ [(Done, pm'\<lparr>wg := wg pm' - 1\<rparr>)])"
      using h(2) by (intro removed_at_once_append) simp_all
    then show ?thesis using h by (simp add: it Return)
  next
    case Continue
    obtain steps' st pm'' where g: "goroutine proc initial es pm' = (steps', st, pm'')"
      by (cases "goroutine proc initial es pm'") auto
    have "list_all (handle_at proc) steps'" "removed_at_once steps'"
      using Cons.IH [OF h(3)] by (simp_all add: g)
    then show ?thesis using h by (simp add: it Continue g removed_at_once_append)
  qed
qed

theorem handle_lifetime_witness:
  "running (snd (startProcess \<lparr>Name = ''W'', Command = ''/app/w'', Args = [], Critical = False, RestartDelay = 0\<rparr> True (NewProcessManager [\<lparr>Name = ''W'', Command = ''/app/w'', Args = [], Critical = False, RestartDelay = 0\<rparr>]))) (Name \<lparr>Name = ''W'', Command = ''/app/w'', Args = [], Critical = False, RestartDelay = 0\<rparr>) = None
   \<and> map fst (fst (goroutine \<lparr>Name = ''W'', Command = ''/app/w'', Args = [], Critical = False, RestartDelay = 0\<rparr> False
          [\<lparr>cancel_at_top = False, start_pid = Some 7, wait_err = True, cancel_at_exit = False,
            cancel_in_delay = False\<rparr>,
           \<lparr>cancel_at_top = False, start_pid = None, wait_err = False, cancel_at_exit = False,
            cancel_in_delay = False\<rparr>]
          (snd (startProcess \<lparr>Name = ''W'', Command = ''/app/w'', Args = [], Critical = False, RestartDelay = 0\<rparr> True (NewProcessManager [\<lparr>Name = ''W'', Command = ''/app/w'', Args = [], Critical = False, RestartDelay = 0\<rparr>]))))) =
       [Starting, Stored, Started 7, Exited True, DeletedAfterExit, LoggedExit True,
        Restarting 5000000000, DelayElapsed 5000000000,
        Starting, Stored, StartFailed, DeletedAfterFailure, DelayElapsed 5000000000]
   \<and> list_all (handle_at \<lparr>Name = ''W'', Command = ''/app/w'', Args = [], Critical = False, RestartDelay = 0\<rparr>)
        (fst (goroutine \<lparr>Name = ''W'', Command = ''/app/w'', Args = [], Critical = False, RestartDelay = 0\<rparr> False
          [\<lparr>cancel_at_top = False, start_pid = Some 7, wait_err = True, cancel_at_exit = False,
            cancel_in_delay = False\<rparr>,
           \<lparr>cancel_at_top = False, start_pid = None, wait_err = False, cancel_at_exit = False,
            cancel_in_delay = False\<rparr>]
          (snd (startProcess \<lparr>Name = ''W'', Command = ''/app/w'', Args = [], Critical = False, RestartDelay = 0\<rparr> True (NewProcessManager [\<lparr>Name = ''W'', Command = ''/app/w'', Args = [], Critical = False, RestartDelay = 0\<rparr>])))))
   \<and> removed_at_once
        (fst (goroutine \<lparr>Name = ''W'', Command = ''/app/w'', Args = [], Critical = False, RestartDelay = 0\<rparr> False
          [\<lparr>cancel_at_top = False, start_pid = Some 7, wait_err = True, cancel_at_exit = False,
            cancel_in_delay = False\<rparr>,
           \<lparr>cancel_at_top = False, start_pid = None, wait_err = False, cancel_at_exit = False,
            cancel_in_delay = False\<rparr>]
          (snd (startProcess \<lparr>Name = ''W'', Command = ''/app/w'', Args = [], Critical = False, RestartDelay = 0\<rparr> True (NewProcessManager [\<lparr>Name = ''W'', Command = ''/app/w'', Args = [], Critical = False, RestartDelay = 0\<rparr>])))))"
proof -
  have h: "running (snd (startProcess \<lparr>Name = ''W'', Command = ''/app/w'', Args = [], Critical = False, RestartDelay = 0\<rparr> True (NewProcessManager [\<lparr>Name = ''W'', Command = ''/app/w'', Args = [], Critical = False, RestartDelay = 0\<rparr>]))) (Name \<lparr>Name = ''W'', Command = ''/app/w'', Args = [], Critical = False, RestartDelay = 0\<rparr>) = None"
    by (simp add: startProcess_def NewProcessManager_def)
  have v: "map fst (fst (goroutine \<lparr>Name = ''W'', Command = ''/app/w'', Args = [], Critical = False, RestartDelay = 0\<rparr> False
          [\<lparr>cancel_at_top = False, start_pid = Some 7, wait_err = True, cancel_at_exit = False,
            cancel_in_delay = False\<rparr>,
           \<lparr>cancel_at_top = False, start_pid = None, wait_err = False, cancel_at_exit = False,
            cancel_in_delay = False\<rparr>]
          (snd (startProcess \<lparr>Name = ''W'', Command = ''/app/w'', Args = [], Critical = False, RestartDelay = 0\<rparr> True (NewProcessManager [\<lparr>Name = ''W'', Command = ''/app/w'', Args = [], Critical = False, RestartDelay = 0\<rparr>]))))) =
       [Starting, Stored, Started 7, Exited True, DeletedAfterExit, LoggedExit True,
        Restarting 5000000000, DelayElapsed 5000000000,
        Starting, Stored, StartFailed, DeletedAfterFailure, DelayElapsed 5000000000]"
    by (simp add: NewProcessManager_def startProcess_def Millisecond_def
        Second_def iteration_def Let_def restart_delay_def)
  show ?thesis
    using handle_lifetime [OF h, of False "[\<lparr>cancel_at_top = False, start_pid = Some 7, wait_err = True, cancel_at_exit = False,
            cancel_in_delay = False\<rparr>,
           \<lparr>cancel_at_top = False, start_pid = None, wait_err = False, cancel_at_exit = False,
            cancel_in_delay = False\<rparr>]"]
    by (intro conjI h v) blast+
qed


subsection \<open>Restarts of the monitor goroutine\<close>









subsection \<open>\<open>Shutdown\<close>\<close>

lemma signal_loop_started:
  "signal_loop names err pm =
     concat (map (\<lambda>(name, pid). [LogSigterm name pid, Signal pid] @
                                  (if err pid then [LogSignalFailed name] else []))
                 (started pm names))"
  by (induction names) (auto split: option.splits)

lemma kill_loop_started:
  "kill_loop names pm =
     concat (map (\<lambda>(name, pid). [LogForceKill name pid, Kill pid]) (started pm names))"
  by (induction names) (auto split: option.splits)

lemma set_started:
  "set (started pm names) = {(name, pid). name \<in> set names \<and> handle_process pm name = Some (Some pid)}"
  by (induction names) (auto split: option.splits)

lemma handle_process_in_dom:
  "handle_process pm name = Some p \<Longrightarrow> name \<in> dom (running pm)"
  by (auto simp: handle_process_def split: option.splits)

lemma handle_process_cancel:
  "handle_process (pm\<lparr>ctx_done := b\<rparr>) name = handle_process pm name"
  by (simp add: handle_process_def split: option.splits)

lemma started_cancel: "started (pm\<lparr>ctx_done := b\<rparr>) names = started pm names"
  by (induction names) (simp_all add: handle_process_cancel split: option.splits)

lemma distinct_started: "distinct names \<Longrightarrow> distinct (map fst (started pm names))"
proof (induction names)
  case Nil
  show ?case by simp
next
  case (Cons name names)
  have "fst ` set (started pm names) \<subseteq> set names"
    by (auto simp: set_started)
  then show ?case using Cons by (auto split: option.splits)
qed

text \<open>
  Claim C4, as the code has it. Let each \<open>range\<close> visit every key of the map once.
  \<open>Shutdown\<close> does, in this order and nothing else: it cancels the context; under the
  lock it sends SIGTERM once to every entry of the map whose process has been started, an
  error of the signal being logged only, and passes over the entries whose process is
  still nil; it waits for the monitor loops against a timer of 30 seconds; if the timer
  fires first it kills, under the lock, every entry then in the map whose process has
  been started; on both branches it then logs the completion and returns.
\<close>

theorem Shutdown_order:
  assumes "distinct (range_at_signal env)"
    and "set (range_at_signal env) = dom (running pm)"
    and "distinct (range_at_kill env)"
    and "set (range_at_kill env) = dom (running (snd (Shutdown env pm)))"
  shows "fst (Shutdown env pm) =
           [LogInitiating, CancelCtx, LockMu] @
           concat (map (\<lambda>(name, pid). [LogSigterm name pid, Signal pid] @
                          (if signal_err env pid then [LogSignalFailed name] else []))
                       (started pm (range_at_signal env))) @
           [UnlockMu, GoWait] @
           (if done_first env then [LogAllExited]
            else [LogTimeout (30 * Second), LockMu] @
                 concat (map (\<lambda>(name, pid). [LogForceKill name pid, Kill pid])
                             (started (snd (Shutdown env pm)) (range_at_kill env))) @
                 [UnlockMu]) @
           [LogComplete]
       \<and> set (started pm (range_at_signal env)) =
           {(name, pid). handle_process pm name = Some (Some pid)}
       \<and> distinct (map fst (started pm (range_at_signal env)))
       \<and> set (started (snd (Shutdown env pm)) (range_at_kill env)) =
           {(name, pid). handle_process (snd (Shutdown env pm)) name = Some (Some pid)}
       \<and> distinct (map fst (started (snd (Shutdown env pm)) (range_at_kill env)))"
proof -
  let ?pm2 = "during_wait env (pm\<lparr>ctx_done := True\<rparr>)"
  have s: "snd (Shutdown env pm) = ?pm2"
    by (simp add: Shutdown_def Let_def)
  have e: "fst (Shutdown env pm) =
           [LogInitiating, CancelCtx, LockMu] @
           concat (map (\<lambda>(name, pid). [LogSigterm name pid, Signal pid] @
                          (if signal_err env pid then [LogSignalFailed name] else []))
                       (started pm (range_at_signal env))) @
           [UnlockMu, GoWait] @
           (if done_first env then [LogAllExited]
            else [LogTimeout (30 * Second), LockMu] @
                 concat (map (\<lambda>(name, pid). [LogForceKill name pid, Kill pid])
                             (started ?pm2 (range_at_kill env))) @
                 [UnlockMu]) @
           [LogComplete]"
    by (simp add: Shutdown_def Let_def signal_loop_started kill_loop_started started_cancel)
  have a: "set (started pm (range_at_signal env)) =
           {(name, pid). handle_process pm name = Some (Some pid)}"
    using assms(2) by (auto simp: set_started dest: handle_process_in_dom)
  have b: "set (started ?pm2 (range_at_kill env)) =
           {(name, pid). handle_process ?pm2 name = Some (Some pid)}"
    using assms(4) by (auto simp: s set_started dest: handle_process_in_dom)
  show ?thesis
    using e a b distinct_started [OF assms(1), of pm] distinct_started [OF assms(3), of ?pm2]
    by (simp only: s simp_thms)
qed

theorem Shutdown_order_witness:
  "distinct [''W'']
   \<and> set [''W''] = dom (running (snd (fst (goroutine \<lparr>Name = ''W'', Command = ''/app/w'', Args = [], Critical = False, RestartDelay = 0\<rparr> True [\<lparr>cancel_at_top = False, start_pid = Some 8, wait_err = False, cancel_at_exit = False, cancel_in_delay = False\<rparr>]
               (snd (startProcess \<lparr>Name = ''W'', Command = ''/app/w'', Args = [], Critical = False, RestartDelay = 0\<rparr> True (NewProcessManager [\<lparr>Name = ''W'', Command = ''/app/w'', Args = [], Critical = False, RestartDelay = 0\<rparr>])))) ! 2)))
   \<and> set [''W''] = dom (running (snd (Shutdown
        \<lparr>range_at_signal = [''W''], signal_err = (\<lambda>pid. False), during_wait = (\<lambda>pm. pm),
         done_first = False, range_at_kill = [''W'']\<rparr>
        (snd (fst (goroutine \<lparr>Name = ''W'', Command = ''/app/w'', Args = [], Critical = False, RestartDelay = 0\<rparr> True [\<lparr>cancel_at_top = False, start_pid = Some 8, wait_err = False, cancel_at_exit = False, cancel_in_delay = False\<rparr>]
               (snd (startProcess \<lparr>Name = ''W'', Command = ''/app/w'', Args = [], Critical = False, RestartDelay = 0\<rparr> True (NewProcessManager [\<lparr>Name = ''W'', Command = ''/app/w'', Args = [], Critical = False, RestartDelay = 0\<rparr>])))) ! 2)))))
   \<and> fst (Shutdown
        \<lparr>range_at_signal = [''W''], signal_err = (\<lambda>pid. False), during_wait = (\<lambda>pm. pm),
         done_first = False, range_at_kill = [''W'']\<rparr>
        (snd (fst (goroutine \<lparr>Name = ''W'', Command = ''/app/w'', Args = [], Critical = False, RestartDelay = 0\<rparr> True [\<lparr>cancel_at_top = False, start_pid = Some 8, wait_err = False, cancel_at_exit = False, cancel_in_delay = False\<rparr>]
               (snd (startProcess \<lparr>Name = ''W'', Command = ''/app/w'', Args = [], Critical = False, RestartDelay = 0\<rparr> True (NewProcessManager [\<lparr>Name = ''W'', Command = ''/app/w'', Args = [], Critical = False, RestartDelay = 0\<rparr>])))) ! 2))) =
       [LogInitiating, CancelCtx, LockMu, LogSigterm ''W'' 8, Signal 8, UnlockMu, GoWait,
        LogTimeout 30000000000, LockMu, LogForceKill ''W'' 8, Kill 8, UnlockMu, LogComplete]
   \<and> set (started (snd (fst (goroutine \<lparr>Name = ''W'', Command = ''/app/w'', Args = [], Critical = False, RestartDelay = 0\<rparr> True [\<lparr>cancel_at_top = False, start_pid = Some 8, wait_err = False, cancel_at_exit = False, cancel_in_delay = False\<rparr>]
               (snd (startProcess \<lparr>Name = ''W'', Command = ''/app/w'', Args = [], Critical = False, RestartDelay = 0\<rparr> True (NewProcessManager [\<lparr>Name = ''W'', Command = ''/app/w'', Args = [], Critical = False, RestartDelay = 0\<rparr>])))) ! 2)) [''W'']) =
       {(name, pid). handle_process (snd (fst (goroutine \<lparr>Name = ''W'', Command = ''/app/w'', Args = [], Critical = False, RestartDelay = 0\<rparr> True [\<lparr>cancel_at_top = False, start_pid = Some 8, wait_err = False, cancel_at_exit = False, cancel_in_delay = False\<rparr>]
               (snd (startProcess \<lparr>Name = ''W'', Command = ''/app/w'', Args = [], Critical = False, RestartDelay = 0\<rparr> True (NewProcessManager [\<lparr>Name = ''W'', Command = ''/app/w'', Args = [], Critical = False, RestartDelay = 0\<rparr>])))) ! 2)) name = Some (Some pid)}"
proof -
  let ?S = "snd (fst (goroutine \<lparr>Name = ''W'', Command = ''/app/w'', Args = [], Critical = False, RestartDelay = 0\<rparr> True [\<lparr>cancel_at_top = False, start_pid = Some 8, wait_err = False, cancel_at_exit = False, cancel_in_delay = False\<rparr>]
               (snd (startProcess \<lparr>Name = ''W'', Command = ''/app/w'', Args = [], Critical = False, RestartDelay = 0\<rparr> True (NewProcessManager [\<lparr>Name = ''W'', Command = ''/app/w'', Args = [], Critical = False, RestartDelay = 0\<rparr>])))) ! 2)"
  let ?E = "\<lparr>range_at_signal = [''W''], signal_err = (\<lambda>pid. False), during_wait = (\<lambda>pm. pm),
         done_first = False, range_at_kill = [''W'']\<rparr>"
  have h1: "distinct (range_at_signal ?E)" "distinct (range_at_kill ?E)"
    by simp_all
  have h2: "set (range_at_signal ?E) = dom (running ?S)"
    by (simp add: NewProcessManager_def startProcess_def iteration_def Let_def)
  have h4: "set (range_at_kill ?E) = dom (running (snd (Shutdown ?E ?S)))"
    by (simp add: NewProcessManager_def startProcess_def iteration_def Let_def Shutdown_def)
  have v: "fst (Shutdown ?E ?S) =
       [LogInitiating, CancelCtx, LockMu, LogSigterm ''W'' 8, Signal 8, UnlockMu, GoWait,
        LogTimeout 30000000000, LockMu, LogForceKill ''W'' 8, Kill 8, UnlockMu, LogComplete]"
    by (simp add: NewProcessManager_def startProcess_def iteration_def Let_def
      handle_process_def CommandContext_def Shutdown_def Second_def Millisecond_def)
  show ?thesis
    using Shutdown_order [OF h1(1) h2 h1(2) h4] h1 h2 h4 v
    by simp
qed

text \<open>
  Claim C4 as stated fails. The manager is in the state that the goroutine of \<open>W\<close> leaves
  after the store and before \<open>cmd.Start()\<close>: the map holds the command of \<open>W\<close>, whose
  process is nil. \<open>Shutdown\<close> then sends no SIGTERM, and after the timeout no kill, to
  that entry.
\<close>

theorem in_map_but_not_signalled:
  "running (snd (fst (goroutine \<lparr>Name = ''W'', Command = ''/app/w'', Args = [], Critical = False, RestartDelay = 0\<rparr> True [\<lparr>cancel_at_top = False, start_pid = Some 8, wait_err = False, cancel_at_exit = False, cancel_in_delay = False\<rparr>]
               (snd (startProcess \<lparr>Name = ''W'', Command = ''/app/w'', Args = [], Critical = False, RestartDelay = 0\<rparr> True (NewProcessManager [\<lparr>Name = ''W'', Command = ''/app/w'', Args = [], Critical = False, RestartDelay = 0\<rparr>])))) ! 1)) ''W'' = Some 0
   \<and> fst (Shutdown
        \<lparr>range_at_signal = [''W''], signal_err = (\<lambda>pid. False), during_wait = (\<lambda>pm. pm),
         done_first = False, range_at_kill = [''W'']\<rparr>
        (snd (fst (goroutine \<lparr>Name = ''W'', Command = ''/app/w'', Args = [], Critical = False, RestartDelay = 0\<rparr> True [\<lparr>cancel_at_top = False, start_pid = Some 8, wait_err = False, cancel_at_exit = False, cancel_in_delay = False\<rparr>]
               (snd (startProcess \<lparr>Name = ''W'', Command = ''/app/w'', Args = [], Critical = False, RestartDelay = 0\<rparr> True (NewProcessManager [\<lparr>Name = ''W'', Command = ''/app/w'', Args = [], Critical = False, RestartDelay = 0\<rparr>])))) ! 1))) =
       [LogInitiating, CancelCtx, LockMu, UnlockMu, GoWait,
        LogTimeout 30000000000, LockMu, UnlockMu, LogComplete]"
  by (simp add: NewProcessManager_def startProcess_def iteration_def Let_def
      handle_process_def CommandContext_def Shutdown_def Second_def Millisecond_def)


end
